theory Spec2Isabelle
  imports Main
begin

section \<open>The plugin's constants and configuration\<close>

text \<open>
  The development embeds \<^verbatim>\<open>src/ConditionalAggregateWebpackPlugin.ts\<close>.
  Times and delays are integer milliseconds. An upstream error is an \<open>Error\<close>
  object or \<open>null\<close>, so \<^verbatim>\<open>if (err)\<close> is the test \<open>err \<noteq> None\<close>.
\<close>

definition DEFAULT_RECHECK_INTERVAL :: int where
  "DEFAULT_RECHECK_INTERVAL = 200"

definition FALSE_CONDITION_PRINT_INTERVAL :: int where
  "FALSE_CONDITION_PRINT_INTERVAL = 10000"

text \<open>The result of the configured predicate: \<^verbatim>\<open>true | string[]\<close>.\<close>

datatype cond_result = CondTrue | CondWhy "string list"

text \<open>
  A JavaScript \<^verbatim>\<open>Set<string>\<close> is the list of its elements in insertion order,
  without duplicates. The predicate is an arbitrary function of the host program: besides
  the two sets it may consult the outside world (whether a build may start), so it takes
  the world \<open>'w\<close> as it is at the moment of the call. It returns its verdict and
  leaves the two sets as they are.
\<close>

type_synonym 'w condition = "'w \<Rightarrow> string list \<Rightarrow> string list \<Rightarrow> cond_result"

text \<open>
  The option \<^verbatim>\<open>recheckInterval?: number\<close> is not validated: when it is supplied it is
  an integer number of milliseconds or \<^verbatim>\<open>NaN\<close>.
\<close>

datatype number = Number int | NaN

record 'w Options =
  condition :: "'w condition"
  recheckInterval :: "number option"

text \<open>
  What one synchronous run of the plugin's code sees of its surroundings: the world the
  predicate consults, and the values of the (at most three) successive reads of
  \<^verbatim>\<open>Date.now()\<close> that \<^verbatim>\<open>onFalse\<close> makes.
\<close>

record 'w env =
  world :: 'w
  now1 :: int
  now2 :: int
  now3 :: int

definition at_instant :: "'w \<Rightarrow> int \<Rightarrow> 'w env" where
  "at_instant w t = \<lparr>world = w, now1 = t, now2 = t, now3 = t\<rparr>"

section \<open>FalseConditionPrinter\<close>

record FalseConditionPrinter =
  printedAt :: "int option"

text \<open>\<^verbatim>\<open>why.join(" ")\<close>\<close>

fun join :: "string list \<Rightarrow> string" where
  "join [] = []"
| "join [x] = x"
| "join (x # y # ys) = x @ '' '' @ join (y # ys)"

text \<open>
  \<^verbatim>\<open>onFalse(why)\<close>, with \<open>t1\<close>, \<open>t2\<close>, \<open>t3\<close> the values of its three reads of the
  clock (lines 35, 38 and 39). \<^verbatim>\<open>!this.printedAt\<close> holds for \<open>undefined\<close> and for the
  number 0. The result is the printer afterwards and the messages given to
  \<^verbatim>\<open>logger.info\<close> (none or one).
\<close>

definition onFalse ::
  "int \<Rightarrow> int \<Rightarrow> int \<Rightarrow> string list \<Rightarrow> FalseConditionPrinter \<Rightarrow> FalseConditionPrinter \<times> string list" where
  "onFalse t1 t2 t3 why p =
     (let start = (case printedAt p of None \<Rightarrow> t1 | Some t \<Rightarrow> if t = 0 then t1 else t)
      in if t2 - start > FALSE_CONDITION_PRINT_INTERVAL
         then (p\<lparr>printedAt := Some t3\<rparr>, if length why > 0 then [join why] else [])
         else (p\<lparr>printedAt := Some start\<rparr>, []))"

definition reset :: "FalseConditionPrinter \<Rightarrow> FalseConditionPrinter" where
  "reset p = p\<lparr>printedAt := None\<rparr>"

text \<open>
  A stream of \<^verbatim>\<open>onFalse\<close> calls on one printer with no reset in between. Each call is
  its three clock reads and its reason lines; the result is the printer afterwards and
  the emissions, each with the clock value the call stored as the new window start.
\<close>

type_synonym false_call = "int \<times> int \<times> int \<times> string list"

fun onFalse_stream ::
  "false_call list \<Rightarrow> FalseConditionPrinter \<Rightarrow> FalseConditionPrinter \<times> (int \<times> string) list" where
  "onFalse_stream [] p = (p, [])"
| "onFalse_stream ((t1, t2, t3, why) # cs) p =
     (let (p1, msgs) = onFalse t1 t2 t3 why p;
          (p2, out) = onFalse_stream cs p1
      in (p2, map (\<lambda>m. (t3, m)) msgs @ out))"

text \<open>The clock never runs backwards: every read is at least \<open>t\<close> and at least the read before it.\<close>

fun clock_mono :: "int \<Rightarrow> false_call list \<Rightarrow> bool" where
  "clock_mono t [] = True"
| "clock_mono t ((t1, t2, t3, why) # cs) = (t \<le> t1 \<and> t1 \<le> t2 \<and> t2 \<le> t3 \<and> clock_mono t3 cs)"

text \<open>Successive emissions lie more than the print interval apart.\<close>

fun spaced :: "int list \<Rightarrow> bool" where
  "spaced [] = True"
| "spaced [a] = True"
| "spaced (a # b # bs) = (b - a > FALSE_CONDITION_PRINT_INTERVAL \<and> spaced (b # bs))"

text \<open>\<open>n\<close> calls spaced 1 ms apart from time \<open>t0\<close> on, each reading the clock at one instant.\<close>

definition every_ms :: "int \<Rightarrow> nat \<Rightarrow> string list \<Rightarrow> false_call list" where
  "every_ms t0 n why = map (\<lambda>i. (t0 + int i, t0 + int i, t0 + int i, why)) [0..<n]"

section \<open>The watch session of ConditionalAggregateFileSystem.watch\<close>

text \<open>
  A call of the downstream callback: \<^verbatim>\<open>callback(err)\<close>, or
  \<^verbatim>\<open>callback(err, fileTimestamps, dirTimestamps, copyChanges, copyRemovals)\<close> with a
  null \<open>err\<close>. The two sets are passed by reference: they are addresses in the heap.
\<close>

datatype ('e, 'ts) callback_call = CallErr 'e | CallOk 'ts 'ts nat nat

text \<open>
  A timer of the host's event loop set by \<^verbatim>\<open>setTimeout(runCallback, recheckInterval)\<close>:
  its handle, its delay, and the timestamps captured by the \<open>runCallback\<close> closure it
  will run (the closure's \<open>err\<close> is null, for a timer is only set past the error test).
\<close>

record 'ts timer =
  handle :: nat
  delay :: int
  fileTimestamps :: 'ts
  dirTimestamps :: 'ts

text \<open>
  The variables closed over by the handler of one \<^verbatim>\<open>watch\<close> call (lines 71 to 74), the
  heap of the \<open>Set\<close> objects the session created (a reference is an index), the timers it
  has pending in the event loop, and what it did so far: its calls of the downstream
  callback, the messages it logged, and every evaluation of the predicate with the
  contents of the two sets it was given and its result.
\<close>

record ('e, 'ts) session =
  heap :: "string list list"
  changes :: nat
  removals :: nat
  timeout :: "nat option"
  printer :: FalseConditionPrinter
  timers :: "'ts timer list"
  next_handle :: nat
  calls :: "('e, 'ts) callback_call list"
  logged :: "string list"
  evals :: "(string list \<times> string list \<times> cond_result) list"

definition watch :: "('e, 'ts) session" where
  "watch = \<lparr>heap = [[], []], changes = 0, removals = 1, timeout = None,
            printer = \<lparr>printedAt = None\<rparr>, timers = [], next_handle = 1,
            calls = [], logged = [], evals = []\<rparr>"

text \<open>\<^verbatim>\<open>set.add(file)\<close> and \<^verbatim>\<open>files.forEach((file) => set.add(file))\<close>\<close>

definition Set_add :: "string \<Rightarrow> string list \<Rightarrow> string list" where
  "Set_add file xs = (if file \<in> set xs then xs else xs @ [file])"

definition forEach_add :: "string list \<Rightarrow> string list \<Rightarrow> string list" where
  "forEach_add files xs = foldl (\<lambda>acc file. Set_add file acc) xs files"

text \<open>\<^verbatim>\<open>clearTimeout(h)\<close>; a timer that fires leaves the event loop the same way.\<close>

definition clearTimeout :: "nat \<Rightarrow> 'ts timer list \<Rightarrow> 'ts timer list" where
  "clearTimeout h ts = filter (\<lambda>t. handle t \<noteq> h) ts"

text \<open>Lines 90 to 93.\<close>

definition cancel_pending :: "('e, 'ts) session \<Rightarrow> ('e, 'ts) session" where
  "cancel_pending s =
     (case timeout s of
        None \<Rightarrow> s
      | Some h \<Rightarrow> s\<lparr>timers := clearTimeout h (timers s), timeout := None\<rparr>)"

text \<open>
  \<^verbatim>\<open>runCallback\<close> (lines 89 to 119) of the notification that carried \<open>err\<close>, \<open>fts\<close> and
  \<open>dts\<close>. On acceptance the two variables are pointed at two new empty sets and the old
  references go to the callback.
\<close>

definition runCallback ::
  "'w condition \<Rightarrow> int \<Rightarrow> 'w env \<Rightarrow> 'e option \<Rightarrow> 'ts \<Rightarrow> 'ts \<Rightarrow> ('e, 'ts) session \<Rightarrow> ('e, 'ts) session" where
  "runCallback cond interval env err fts dts s0 =
     (let s = cancel_pending s0 in
      case err of
        Some e \<Rightarrow> s\<lparr>printer := reset (printer s), calls := calls s @ [CallErr e]\<rparr>
      | None \<Rightarrow>
          (let cs = heap s ! changes s;
               rs = heap s ! removals s;
               res = cond (world env) cs rs;
               s1 = s\<lparr>evals := evals s @ [(cs, rs, res)]\<rparr>
           in case res of
                CondTrue \<Rightarrow>
                  s1\<lparr>heap := heap s1 @ [[], []],
                     changes := length (heap s1),
                     removals := Suc (length (heap s1)),
                     printer := reset (printer s1),
                     calls := calls s1 @ [CallOk fts dts (changes s1) (removals s1)]\<rparr>
              | CondWhy why \<Rightarrow>
                  (let (p, msgs) = onFalse (now1 env) (now2 env) (now3 env) why (printer s1)
                   in s1\<lparr>printer := p,
                         logged := logged s1 @ msgs,
                         timers := timers s1 @
                           [\<lparr>handle = next_handle s1, delay = interval,
                             fileTimestamps = fts, dirTimestamps = dts\<rparr>],
                         timeout := Some (next_handle s1),
                         next_handle := Suc (next_handle s1)\<rparr>)))"

text \<open>The handler given to the wrapped \<^verbatim>\<open>wfs.watch\<close> (lines 82 to 127).\<close>

definition handler ::
  "'w condition \<Rightarrow> int \<Rightarrow> 'w env \<Rightarrow> 'e option \<Rightarrow> 'ts \<Rightarrow> 'ts \<Rightarrow> string list \<Rightarrow> string list \<Rightarrow>
     ('e, 'ts) session \<Rightarrow> ('e, 'ts) session" where
  "handler cond interval env err fts dts changedFiles removedFiles s =
     runCallback cond interval env err fts dts
       (if err = None
        then (let h1 = (heap s)[changes s := forEach_add changedFiles (heap s ! changes s)];
                  h2 = h1[removals s := forEach_add removedFiles (h1 ! removals s)]
              in s\<lparr>heap := h2\<rparr>)
        else s)"

text \<open>
  The event loop fires the pending timer \<open>h\<close>: the timer leaves the loop and its closure
  runs. A handle with no pending timer fires nothing.
\<close>

definition fire ::
  "'w condition \<Rightarrow> int \<Rightarrow> 'w env \<Rightarrow> nat \<Rightarrow> ('e, 'ts) session \<Rightarrow> ('e, 'ts) session" where
  "fire cond interval env h s =
     (case find (\<lambda>t. handle t = h) (timers s) of
        None \<Rightarrow> s
      | Some t \<Rightarrow>
          runCallback cond interval env None (fileTimestamps t) (dirTimestamps t)
            (s\<lparr>timers := clearTimeout h (timers s)\<rparr>))"

datatype ('e, 'ts) event =
    Notify "'e option" 'ts 'ts "string list" "string list"
  | TimerFire nat

fun step ::
  "'w condition \<Rightarrow> int \<Rightarrow> 'w env \<Rightarrow> ('e, 'ts) event \<Rightarrow> ('e, 'ts) session \<Rightarrow> ('e, 'ts) session" where
  "step cond interval env (Notify err fts dts changedFiles removedFiles) s =
     handler cond interval env err fts dts changedFiles removedFiles s"
| "step cond interval env (TimerFire h) s = fire cond interval env h s"

fun run ::
  "'w condition \<Rightarrow> int \<Rightarrow> ('w env \<times> ('e, 'ts) event) list \<Rightarrow> ('e, 'ts) session \<Rightarrow> ('e, 'ts) session" where
  "run cond interval [] s = s"
| "run cond interval ((env, ev) # evs) s = run cond interval evs (step cond interval env ev s)"

text \<open>The ids a raw notification adds to the accumulated sets.\<close>

fun changed_of :: "('e, 'ts) event \<Rightarrow> string list" where
  "changed_of (Notify None fts dts changedFiles removedFiles) = changedFiles"
| "changed_of _ = []"

fun removed_of :: "('e, 'ts) event \<Rightarrow> string list" where
  "removed_of (Notify None fts dts changedFiles removedFiles) = removedFiles"
| "removed_of _ = []"

fun error_free :: "('e, 'ts) event \<Rightarrow> bool" where
  "error_free (Notify err fts dts changedFiles removedFiles) = (err = None)"
| "error_free (TimerFire h) = True"

text \<open>
  The session's two variables hold distinct live references, and the pending timers are
  those the variable \<open>timeout\<close> knows: what \<^verbatim>\<open>watch\<close> establishes and every step keeps.
\<close>

definition session_ok :: "('e, 'ts) session \<Rightarrow> bool" where
  "session_ok s =
     (changes s < length (heap s) \<and> removals s < length (heap s) \<and> changes s \<noteq> removals s \<and>
      map handle (timers s) = (case timeout s of None \<Rightarrow> [] | Some h \<Rightarrow> [h]) \<and>
      (case timeout s of None \<Rightarrow> True | Some h \<Rightarrow> h < next_handle s))"

text \<open>The results of the evaluations of the predicate made between a state and a later one.\<close>

definition verdicts_since :: "('e, 'ts) session \<Rightarrow> ('e, 'ts) session \<Rightarrow> cond_result list" where
  "verdicts_since s s' = map (\<lambda>v. snd (snd v)) (drop (length (evals s)) (evals s'))"

section \<open>The plugin: apply, the startup barrier and the wrapped file system\<close>

text \<open>
  The variables closed over by the two hooks that \<^verbatim>\<open>apply\<close> taps (lines 137 to 141),
  whether the startup loop is suspended in its \<^verbatim>\<open>await\<close>, whether
  \<^verbatim>\<open>afterEnvironment\<close> has installed the wrapped file system, the sessions opened
  through it, and what the startup barrier did so far: how often the branch
  \<^verbatim>\<open>if (firstRun)\<close> was entered, the result of every evaluation of the predicate on two
  new empty sets, the delay of every sleep, and the messages logged. The fields
  \<open>apply_printer\<close> and \<open>apply_interval\<close> are the source's \<open>printer\<close> and
  \<open>recheckInterval\<close> of \<^verbatim>\<open>apply\<close>.
\<close>

record ('e, 'ts) plugin =
  apply_printer :: FalseConditionPrinter
  apply_interval :: int
  firstRun :: bool
  asleep :: bool
  wrapped :: bool
  sessions :: "('e, 'ts) session list"
  barrier_entries :: nat
  barrier_evals :: "cond_result list"
  barrier_sleeps :: "int list"
  apply_logged :: "string list"

text \<open>
  \<^verbatim>\<open>this.options.recheckInterval || DEFAULT_RECHECK_INTERVAL\<close>: the left operand is
  falsy when it is \<open>undefined\<close>, 0 or \<open>NaN\<close>. The result is never \<open>NaN\<close>, so it is
  given as the integer it is.
\<close>

definition effective_interval :: "number option \<Rightarrow> int" where
  "effective_interval r =
     (case r of
        None \<Rightarrow> DEFAULT_RECHECK_INTERVAL
      | Some NaN \<Rightarrow> DEFAULT_RECHECK_INTERVAL
      | Some (Number n) \<Rightarrow> if n = 0 then DEFAULT_RECHECK_INTERVAL else n)"

definition apply_plugin :: "'w Options \<Rightarrow> ('e, 'ts) plugin" where
  "apply_plugin opts =
     \<lparr>apply_printer = \<lparr>printedAt = None\<rparr>,
      apply_interval = effective_interval (recheckInterval opts),
      firstRun = True, asleep = False, wrapped = False, sessions = [],
      barrier_entries = 0, barrier_evals = [], barrier_sleeps = [], apply_logged = []\<rparr>"

text \<open>
  One turn of the loop \<^verbatim>\<open>while (true)\<close> (lines 147 to 156), up to its \<^verbatim>\<open>break\<close> or
  its \<^verbatim>\<open>await\<close>. The loop is asynchronous: after a rejection it is suspended until the
  timer of its sleep resolves, and the next turn is a later step of the plugin.
\<close>

definition barrier_turn :: "'w Options \<Rightarrow> 'w env \<Rightarrow> ('e, 'ts) plugin \<Rightarrow> ('e, 'ts) plugin" where
  "barrier_turn opts env p =
     (let res = condition opts (world env) [] [];
          p1 = p\<lparr>barrier_evals := barrier_evals p @ [res]\<rparr>
      in case res of
           CondTrue \<Rightarrow> p1\<lparr>apply_printer := reset (apply_printer p1), asleep := False\<rparr>
         | CondWhy why \<Rightarrow>
             (let (pr, msgs) = onFalse (now1 env) (now2 env) (now3 env) why (apply_printer p1)
              in p1\<lparr>apply_printer := pr,
                    apply_logged := apply_logged p1 @ msgs,
                    barrier_sleeps := barrier_sleeps p1 @ [apply_interval p1],
                    asleep := True\<rparr>))"

text \<open>The handler tapped on \<^verbatim>\<open>watchRun\<close> (lines 143 to 159).\<close>

definition watchRun :: "'w Options \<Rightarrow> 'w env \<Rightarrow> ('e, 'ts) plugin \<Rightarrow> ('e, 'ts) plugin" where
  "watchRun opts env p =
     (if firstRun p
      then barrier_turn opts env (p\<lparr>firstRun := False, barrier_entries := Suc (barrier_entries p)\<rparr>)
      else p)"

text \<open>The timer of the loop's sleep resolves and the suspended loop takes its next turn.\<close>

definition wake :: "'w Options \<Rightarrow> 'w env \<Rightarrow> ('e, 'ts) plugin \<Rightarrow> ('e, 'ts) plugin" where
  "wake opts env p = (if asleep p then barrier_turn opts env p else p)"

text \<open>
  The handler tapped on \<^verbatim>\<open>afterEnvironment\<close> (lines 161 to 168) installs the wrapped
  file system; a \<^verbatim>\<open>watch\<close> call on it opens a session, whose handler and timers run
  with the plugin's predicate and the interval computed in \<^verbatim>\<open>apply\<close>.
\<close>

datatype ('e, 'ts) plugin_event =
    WatchRun
  | Wake
  | AfterEnvironment
  | Watch
  | OnSession nat "('e, 'ts) event"

fun plugin_step ::
  "'w Options \<Rightarrow> 'w env \<Rightarrow> ('e, 'ts) plugin_event \<Rightarrow> ('e, 'ts) plugin \<Rightarrow> ('e, 'ts) plugin" where
  "plugin_step opts env WatchRun p = watchRun opts env p"
| "plugin_step opts env Wake p = wake opts env p"
| "plugin_step opts env AfterEnvironment p = p\<lparr>wrapped := True\<rparr>"
| "plugin_step opts env Watch p =
     (if wrapped p then p\<lparr>sessions := sessions p @ [watch]\<rparr> else p)"
| "plugin_step opts env (OnSession i ev) p =
     (if i < length (sessions p)
      then p\<lparr>sessions := (sessions p)[i := step (condition opts) (apply_interval p) env ev (sessions p ! i)]\<rparr>
      else p)"

fun plugin_run ::
  "'w Options \<Rightarrow> ('w env \<times> ('e, 'ts) plugin_event) list \<Rightarrow> ('e, 'ts) plugin \<Rightarrow> ('e, 'ts) plugin" where
  "plugin_run opts [] p = p"
| "plugin_run opts ((env, ev) # evs) p = plugin_run opts evs (plugin_step opts env ev p)"

text \<open>Every sleep of the barrier and every pending retry timer has the delay \<open>d\<close>.\<close>

definition intervals_ok :: "int \<Rightarrow> ('e, 'ts) plugin \<Rightarrow> bool" where
  "intervals_ok d p =
     (apply_interval p = d \<and> list_all (\<lambda>x. x = d) (barrier_sleeps p) \<and>
      list_all (\<lambda>s. list_all (\<lambda>t. delay t = d) (timers s)) (sessions p))"

subsection \<open>An example configuration\<close>

text \<open>
  A predicate that lets a build start when the world is ready or some file has changed,
  and two histories of a plugin configured with it. In the first the startup loop is
  rejected at time 1000 and sleeps while a session accepts a notification at time 5000.
  In the second a session is rejected at time 1000 and the startup loop is accepted at
  time 2000.
\<close>

definition ready_or_changed :: "bool condition" where
  "ready_or_changed w cs rs = (if w \<or> cs \<noteq> [] then CondTrue else CondWhy [''not ready''])"

definition example_options :: "bool Options" where
  "example_options = \<lparr>condition = ready_or_changed, recheckInterval = None\<rparr>"

definition session_accepts_during_barrier :: "(bool env \<times> (string, nat) plugin_event) list" where
  "session_accepts_during_barrier =
     [(at_instant False 1000, AfterEnvironment),
      (at_instant False 1000, Watch),
      (at_instant False 1000, WatchRun),
      (at_instant False 5000, OnSession 0 (Notify None 1 1 [''a''] []))]"

definition barrier_accepts_during_session :: "(bool env \<times> (string, nat) plugin_event) list" where
  "barrier_accepts_during_session =
     [(at_instant False 1000, AfterEnvironment),
      (at_instant False 1000, Watch),
      (at_instant False 1000, OnSession 0 (Notify None 1 1 [] [])),
      (at_instant True 2000, WatchRun)]"

section \<open>The throttled reporter\<close>

lemma onFalse_cases:
  "onFalse t1 t2 t3 why p =
     (if t2 - (case printedAt p of None \<Rightarrow> t1 | Some t \<Rightarrow> if t = 0 then t1 else t) > 10000
      then (p\<lparr>printedAt := Some t3\<rparr>, if why = [] then [] else [join why])
      else (p\<lparr>printedAt := Some (case printedAt p of None \<Rightarrow> t1 | Some t \<Rightarrow> if t = 0 then t1 else t)\<rparr>, []))"
  by (simp add: onFalse_def Let_def FALSE_CONDITION_PRINT_INTERVAL_def)

lemma onFalse_stream_append:
  "onFalse_stream (xs @ ys) p =
     (let (p1, out1) = onFalse_stream xs p; (p2, out2) = onFalse_stream ys p1 in (p2, out1 @ out2))"
  by (induction xs arbitrary: p) (auto simp: Let_def split: prod.splits)

lemma stream_quiet:
  assumes "printedAt p = Some q" "q \<noteq> 0"
    and "\<forall>c \<in> set cs. fst (snd c) - q \<le> 10000"
  shows "onFalse_stream cs p = (p, [])"
  using assms
proof (induction cs)
  case Nil
  then show ?case by simp
next
  case (Cons c cs)
  obtain t1 t2 t3 why where c: "c = (t1, t2, t3, why)" by (cases c) auto
  from Cons.prems have "t2 - q \<le> 10000" by (simp add: c)
  with Cons.prems have "onFalse t1 t2 t3 why p = (p, [])"
    by (simp add: onFalse_cases)
  with Cons show ?case by (simp add: c)
qed

lemma stream_bounds:
  assumes "clock_mono t cs" "b \<le> t" "\<forall>q. printedAt p = Some q \<longrightarrow> b \<le> q \<and> q \<le> t"
  shows "(\<forall>e \<in> set (map fst (snd (onFalse_stream cs p))). e > b + 10000) \<and>
         spaced (map fst (snd (onFalse_stream cs p))) \<and>
         (snd (onFalse_stream cs p) \<noteq> [] \<longrightarrow>
            b + 10001 * int (length (snd (onFalse_stream cs p))) \<le> fst (last (snd (onFalse_stream cs p))))"
  using assms
proof (induction cs arbitrary: t b p)
  case Nil
  then show ?case by simp
next
  case (Cons c cs)
  obtain t1 t2 t3 why where c: "c = (t1, t2, t3, why)" by (cases c) auto
  define start where "start = (case printedAt p of None \<Rightarrow> t1 | Some t \<Rightarrow> if t = 0 then t1 else t)"
  from Cons.prems have mono: "t \<le> t1" "t1 \<le> t2" "t2 \<le> t3" "clock_mono t3 cs"
    by (simp_all add: c)
  have start: "b \<le> start" "start \<le> t1"
    using Cons.prems(2,3) mono unfolding start_def by (auto split: option.splits)
  show ?case
  proof (cases "t2 - start > 10000")
    case True
    define p1 where "p1 = p\<lparr>printedAt := Some t3\<rparr>"
    have of: "onFalse t1 t2 t3 why p = (p1, if why = [] then [] else [join why])"
      using True by (simp add: onFalse_cases start_def p1_def)
    have ih: "(\<forall>e \<in> set (map fst (snd (onFalse_stream cs p1))). e > t3 + 10000) \<and>
         spaced (map fst (snd (onFalse_stream cs p1))) \<and>
         (snd (onFalse_stream cs p1) \<noteq> [] \<longrightarrow>
            t3 + 10001 * int (length (snd (onFalse_stream cs p1))) \<le> fst (last (snd (onFalse_stream cs p1))))"
      by (rule Cons.IH[OF mono(4)]) (simp_all add: p1_def)
    have t3: "t3 > b + 10000" using True start mono by linarith
    obtain p2 out where r: "onFalse_stream cs p1 = (p2, out)" by (cases "onFalse_stream cs p1") auto
    have sp: "spaced (t3 # map fst out)"
      using ih r by (cases out) (auto simp: FALSE_CONDITION_PRINT_INTERVAL_def)
    show ?thesis
      using ih r t3 sp by (auto simp: c of)
  next
    case False
    define p1 where "p1 = p\<lparr>printedAt := Some start\<rparr>"
    have of: "onFalse t1 t2 t3 why p = (p1, [])"
      using False by (simp add: onFalse_cases start_def p1_def)
    have ih: "(\<forall>e \<in> set (map fst (snd (onFalse_stream cs p1))). e > b + 10000) \<and>
         spaced (map fst (snd (onFalse_stream cs p1))) \<and>
         (snd (onFalse_stream cs p1) \<noteq> [] \<longrightarrow>
            b + 10001 * int (length (snd (onFalse_stream cs p1))) \<le> fst (last (snd (onFalse_stream cs p1))))"
      apply (rule Cons.IH[OF mono(4)])
      using start mono Cons.prems(2) by (simp_all add: p1_def)
    obtain p2 out where r: "onFalse_stream cs p1 = (p2, out)" by (cases "onFalse_stream cs p1") auto
    show ?thesis using ih r by (simp add: c of)
  qed
qed

lemma stream_times:
  "fst ` set (snd (onFalse_stream cs p)) \<subseteq> (\<lambda>c. fst (snd (snd c))) ` set cs"
proof (induction cs arbitrary: p)
  case Nil
  then show ?case by simp
next
  case (Cons c cs)
  obtain t1 t2 t3 why where c: "c = (t1, t2, t3, why)" by (cases c) auto
  obtain p1 msgs where o: "onFalse t1 t2 t3 why p = (p1, msgs)" by (cases "onFalse t1 t2 t3 why p") auto
  obtain p2 out where r: "onFalse_stream cs p1 = (p2, out)" by (cases "onFalse_stream cs p1") auto
  from Cons.IH[of p1] r have "fst ` set out \<subseteq> (\<lambda>c. fst (snd (snd c))) ` set cs" by simp
  then show ?case by (auto simp: c o r)
qed

lemma every_ms_add: "every_ms t0 (m + n) why = every_ms t0 m why @ every_ms (t0 + int m) n why"
proof -
  have a: "[0..<m + n] = [0..<m] @ [m..<m + n]"
    by (rule upt_add_eq_append) simp
  have b: "[m..<m + n] = map (\<lambda>i. i + m) [0..<n]"
    by (simp only: map_add_upt add.commute)
  have c: "map (\<lambda>i. (t0 + int i, t0 + int i, t0 + int i, why)) (map (\<lambda>i. i + m) [0..<n])
      = map (\<lambda>i. (t0 + int m + int i, t0 + int m + int i, t0 + int m + int i, why)) [0..<n]"
    by (simp add: comp_def algebra_simps)
  show ?thesis
    unfolding every_ms_def a b[symmetric] by (simp only: map_append b c)
qed

lemma every_ms_Suc: "every_ms t0 (Suc n) why = (t0, t0, t0, why) # every_ms (t0 + 1) n why"
proof -
  have "every_ms t0 (1 + n) why = every_ms t0 1 why @ every_ms (t0 + int 1) n why"
    by (rule every_ms_add)
  moreover have "every_ms t0 1 why = [(t0, t0, t0, why)]" by (simp add: every_ms_def)
  ultimately show ?thesis by simp
qed

lemma clock_mono_every_ms: "t \<le> t0 \<Longrightarrow> clock_mono t (every_ms t0 n why)"
proof (induction n arbitrary: t t0)
  case 0
  then show ?case by (simp add: every_ms_def)
next
  case (Suc n)
  then show ?case by (simp add: every_ms_Suc)
qed

lemma every_ms_reads: "c \<in> set (every_ms t0 n why) \<Longrightarrow>
   fst (snd c) = fst c \<and> fst (snd (snd c)) = fst c \<and> t0 \<le> fst c \<and> fst c < t0 + int n"
  by (auto simp: every_ms_def)

lemma every_ms_one: "every_ms t (Suc 0) why = [(t, t, t, why)]"
  by (simp add: every_ms_def)

lemma stream_quiet_ms:
  assumes "q \<noteq> 0" "t0 + int n \<le> q + 10001"
  shows "onFalse_stream (every_ms t0 n why) \<lparr>printedAt = Some q\<rparr> = (\<lparr>printedAt = Some q\<rparr>, [])"
proof (rule stream_quiet[where q = q])
  show "printedAt \<lparr>printedAt = Some q\<rparr> = Some q" by simp
  show "q \<noteq> 0" by fact
  show "\<forall>c\<in>set (every_ms t0 n why). fst (snd c) - q \<le> 10000"
  proof
    fix c assume "c \<in> set (every_ms t0 n why)"
    from every_ms_reads[OF this] assms(2) show "fst (snd c) - q \<le> 10000" by linarith
  qed
qed

lemma stream_25000:
  assumes "0 < t0" "why \<noteq> []"
  shows "onFalse_stream (every_ms t0 25001 why) \<lparr>printedAt = None\<rparr> =
           (\<lparr>printedAt = Some (t0 + 20002)\<rparr>, [(t0 + 10001, join why), (t0 + 20002, join why)])"
proof -
  have split: "every_ms t0 25001 why =
      every_ms t0 1 why @ every_ms (t0 + 1) 10000 why @
      every_ms (t0 + 10001) 1 why @ every_ms (t0 + 10002) 10000 why @
      every_ms (t0 + 20002) 1 why @ every_ms (t0 + 20003) 4998 why"
    using every_ms_add[of t0 1 25000 why] every_ms_add[of "t0 + 1" 10000 15000 why]
      every_ms_add[of "t0 + 10001" 1 14999 why] every_ms_add[of "t0 + 10002" 10000 4999 why]
      every_ms_add[of "t0 + 20002" 1 4998 why]
    by (simp add: algebra_simps)
  have s1: "onFalse_stream (every_ms t0 1 why) \<lparr>printedAt = None\<rparr> = (\<lparr>printedAt = Some t0\<rparr>, [])"
    by (simp add: every_ms_one onFalse_cases)
  have q1: "onFalse_stream (every_ms (t0 + 1) 10000 why) \<lparr>printedAt = Some t0\<rparr> = (\<lparr>printedAt = Some t0\<rparr>, [])"
    using assms(1) by (intro stream_quiet_ms) simp_all
  have s2: "onFalse_stream (every_ms (t0 + 10001) 1 why) \<lparr>printedAt = Some t0\<rparr> =
      (\<lparr>printedAt = Some (t0 + 10001)\<rparr>, [(t0 + 10001, join why)])"
    using assms by (simp add: every_ms_one onFalse_cases)
  have q2: "onFalse_stream (every_ms (t0 + 10002) 10000 why) \<lparr>printedAt = Some (t0 + 10001)\<rparr> =
      (\<lparr>printedAt = Some (t0 + 10001)\<rparr>, [])"
    using assms(1) by (intro stream_quiet_ms) simp_all
  have s3: "onFalse_stream (every_ms (t0 + 20002) 1 why) \<lparr>printedAt = Some (t0 + 10001)\<rparr> =
      (\<lparr>printedAt = Some (t0 + 20002)\<rparr>, [(t0 + 20002, join why)])"
    using assms by (simp add: every_ms_one onFalse_cases)
  have q3: "onFalse_stream (every_ms (t0 + 20003) 4998 why) \<lparr>printedAt = Some (t0 + 20002)\<rparr> =
      (\<lparr>printedAt = Some (t0 + 20002)\<rparr>, [])"
    using assms(1) by (intro stream_quiet_ms) simp_all
  show ?thesis
    by (simp only: split onFalse_stream_append s1 q1 s2 q2 s3 q3 Let_def prod.case append_Nil append_Cons)
qed

lemma stream_count:
  assumes "clock_mono t cs" "printedAt p = None" "\<forall>c \<in> set cs. fst (snd (snd c)) \<le> t + d" "0 \<le> d"
  shows "10001 * int (length (snd (onFalse_stream cs p))) \<le> d"
proof (cases "snd (onFalse_stream cs p) = []")
  case True
  then show ?thesis using assms(4) by simp
next
  case False
  have "t + 10001 * int (length (snd (onFalse_stream cs p))) \<le> fst (last (snd (onFalse_stream cs p)))"
    using stream_bounds[OF assms(1), of t p] assms(2) False by simp
  moreover have "fst (last (snd (onFalse_stream cs p))) \<in> fst ` set (snd (onFalse_stream cs p))"
    using False by simp
  then have "fst (last (snd (onFalse_stream cs p))) \<in> (\<lambda>c. fst (snd (snd c))) ` set cs"
    using stream_times[of cs p] by blast
  then obtain c where "c \<in> set cs" "fst (last (snd (onFalse_stream cs p))) = fst (snd (snd c))"
    by (rule imageE)
  then have "fst (last (snd (onFalse_stream cs p))) \<le> t + d"
    using assms(3) by simp
  ultimately show ?thesis by linarith
qed

lemma stream_25000_count: "length (snd (onFalse_stream (every_ms t0 25001 why) \<lparr>printedAt = None\<rparr>)) \<le> 2"
proof -
  have "10001 * int (length (snd (onFalse_stream (every_ms t0 25001 why) \<lparr>printedAt = None\<rparr>))) \<le> 25000"
  proof (rule stream_count[where t = t0])
    show "clock_mono t0 (every_ms t0 25001 why)" by (rule clock_mono_every_ms) simp
    show "printedAt \<lparr>printedAt = None\<rparr> = None" by simp
    show "\<forall>c\<in>set (every_ms t0 25001 why). fst (snd (snd c)) \<le> t0 + 25000"
    proof
      fix c assume "c \<in> set (every_ms t0 25001 why)"
      from every_ms_reads[OF this] show "fst (snd (snd c)) \<le> t0 + 25000" by simp
    qed
    show "(0::int) \<le> 25000" by simp
  qed
  then show ?thesis by linarith
qed

lemma cancel_pending_frame [simp]:
  "heap (cancel_pending s) = heap s" "changes (cancel_pending s) = changes s"
  "removals (cancel_pending s) = removals s" "printer (cancel_pending s) = printer s"
  "calls (cancel_pending s) = calls s" "logged (cancel_pending s) = logged s"
  "evals (cancel_pending s) = evals s" "next_handle (cancel_pending s) = next_handle s"
  "timeout (cancel_pending s) = None"
  by (simp_all add: cancel_pending_def split: option.splits)

lemma onFalse_no_reason: "onFalse t1 t2 t3 [] p = (fst (onFalse t1 t2 t3 [] p), [])"
  by (simp add: onFalse_def Let_def)

lemma stream_no_reason:
  "\<forall>c \<in> set cs. snd (snd (snd c)) = [] \<Longrightarrow> snd (onFalse_stream cs p) = []"
proof (induction cs arbitrary: p)
  case Nil
  then show ?case by simp
next
  case (Cons c cs)
  obtain t1 t2 t3 why where c: "c = (t1, t2, t3, why)" by (cases c) auto
  with Cons.prems have why: "why = []" by simp
  obtain p1 where o: "onFalse t1 t2 t3 [] p = (p1, [])"
    using onFalse_no_reason by blast
  from Cons have "snd (onFalse_stream cs p1) = []" by simp
  then show ?case by (simp add: c why o split: prod.splits)
qed

text \<open>
  C7. A rejection whose reason list is empty never logs, whatever the clock reads and
  whenever the window started: in a single \<open>onFalse\<close> call, in a whole stream of such
  calls, in a run of \<open>runCallback\<close> whose predicate rejects with an empty list, and in a
  turn of the startup loop.
\<close>

theorem empty_reason_suppression:
  "snd (onFalse t1 t2 t3 [] p) = [] \<and>
   ((\<forall>c \<in> set cs. snd (snd (snd c)) = []) \<longrightarrow> snd (onFalse_stream cs q) = []) \<and>
   (cond (world env) (heap s ! changes s) (heap s ! removals s) = CondWhy [] \<longrightarrow>
      logged (runCallback cond interval env None fts dts s) = logged s) \<and>
   (condition opts (world env) [] [] = CondWhy [] \<longrightarrow>
      apply_logged (barrier_turn opts env pl) = apply_logged pl)"
proof (intro conjI impI)
  show "snd (onFalse t1 t2 t3 [] p) = []"
    by (simp add: onFalse_def Let_def)
next
  assume "\<forall>c \<in> set cs. snd (snd (snd c)) = []"
  then show "snd (onFalse_stream cs q) = []" by (rule stream_no_reason)
next
  assume r: "cond (world env) (heap s ! changes s) (heap s ! removals s) = CondWhy []"
  obtain p1 where "onFalse (now1 env) (now2 env) (now3 env) [] (printer s) = (p1, [])"
    using onFalse_no_reason by blast
  with r show "logged (runCallback cond interval env None fts dts s) = logged s"
    by (simp add: runCallback_def Let_def)
next
  assume r: "condition opts (world env) [] [] = CondWhy []"
  obtain p1 where "onFalse (now1 env) (now2 env) (now3 env) [] (apply_printer pl) = (p1, [])"
    using onFalse_no_reason by blast
  with r show "apply_logged (barrier_turn opts env pl) = apply_logged pl"
    by (simp add: barrier_turn_def Let_def)
qed

theorem empty_reason_suppression_witness:
  "onFalse 1 20000 20000 [] \<lparr>printedAt = Some 1\<rparr> = (\<lparr>printedAt = Some 20000\<rparr>, []) \<and>
   snd (onFalse_stream [(1, 1, 1, []), (20000, 20000, 20000, [])] \<lparr>printedAt = None\<rparr>) = [] \<and>
   logged (runCallback (\<lambda>w cs rs. CondWhy []) 200 (at_instant () 20000) None (0::nat) 0
      ((watch :: (unit, nat) session)\<lparr>printer := \<lparr>printedAt = Some 1\<rparr>\<rparr>)) = [] \<and>
   apply_logged (barrier_turn \<lparr>condition = (\<lambda>w cs rs. CondWhy []), recheckInterval = None\<rparr>
      (at_instant () 20000)
      ((apply_plugin \<lparr>condition = (\<lambda>w cs rs. CondWhy []), recheckInterval = None\<rparr>
          :: (unit, nat) plugin)\<lparr>apply_printer := \<lparr>printedAt = Some 1\<rparr>\<rparr>)) = []"
  using empty_reason_suppression
    [of 1 20000 20000 "\<lparr>printedAt = Some 1\<rparr>"
        "[(1, 1, 1, []), (20000, 20000, 20000, [])]" "\<lparr>printedAt = None\<rparr>"
        "\<lambda>w cs rs. CondWhy []" "at_instant () 20000"
        "(watch :: (unit, nat) session)\<lparr>printer := \<lparr>printedAt = Some 1\<rparr>\<rparr>" 200 "0::nat" 0
        "\<lparr>condition = (\<lambda>w cs rs. CondWhy []), recheckInterval = None\<rparr>"
        "(apply_plugin \<lparr>condition = (\<lambda>w cs rs. CondWhy []), recheckInterval = None\<rparr>
          :: (unit, nat) plugin)\<lparr>apply_printer := \<lparr>printedAt = Some 1\<rparr>\<rparr>"]
  by (simp add: onFalse_def FALSE_CONDITION_PRINT_INTERVAL_def watch_def apply_plugin_def)

text \<open>
  C6. Under a stream of \<open>onFalse\<close> calls with no reset in between and a clock that does
  not run backwards, successive emissions lie more than 10000 ms apart, and in a new
  streak every emission comes more than 10000 ms after the streak began. The first call
  of a new streak only records the window start and emits nothing (the call itself
  takes no longer than the interval). Calls spaced 1 ms apart over 25000 ms give at most
  3 emissions; with reason lines and a positive clock they give exactly two, 10001 ms
  and 20002 ms after the first call.
\<close>

theorem throttled_reporting:
  "(clock_mono t cs \<and> (\<forall>q. printedAt p = Some q \<longrightarrow> q \<le> t) \<longrightarrow>
      spaced (map fst (snd (onFalse_stream cs p)))) \<and>
   (clock_mono t cs \<and> printedAt p = None \<longrightarrow>
      (\<forall>e \<in> set (map fst (snd (onFalse_stream cs p))). t + FALSE_CONDITION_PRINT_INTERVAL < e)) \<and>
   (printedAt p = None \<and> t2 - t1 \<le> FALSE_CONDITION_PRINT_INTERVAL \<longrightarrow>
      onFalse t1 t2 t3 why p = (p\<lparr>printedAt := Some t1\<rparr>, [])) \<and>
   length (snd (onFalse_stream (every_ms t0 25001 why) \<lparr>printedAt = None\<rparr>)) \<le> 3 \<and>
   (0 < t0 \<and> why \<noteq> [] \<longrightarrow>
      snd (onFalse_stream (every_ms t0 25001 why) \<lparr>printedAt = None\<rparr>) =
        [(t0 + 10001, join why), (t0 + 20002, join why)])"
proof (intro conjI impI)
  assume a: "clock_mono t cs \<and> (\<forall>q. printedAt p = Some q \<longrightarrow> q \<le> t)"
  define b where "b = (case printedAt p of None \<Rightarrow> t | Some q \<Rightarrow> q)"
  have "b \<le> t" "\<forall>q. printedAt p = Some q \<longrightarrow> b \<le> q \<and> q \<le> t"
    using a by (auto simp: b_def split: option.splits)
  with a stream_bounds[of t cs b p] show "spaced (map fst (snd (onFalse_stream cs p)))"
    by blast
next
  assume a: "clock_mono t cs \<and> printedAt p = None"
  with stream_bounds[of t cs t p]
  show "\<forall>e \<in> set (map fst (snd (onFalse_stream cs p))). t + FALSE_CONDITION_PRINT_INTERVAL < e"
    by (simp add: FALSE_CONDITION_PRINT_INTERVAL_def)
next
  assume "printedAt p = None \<and> t2 - t1 \<le> FALSE_CONDITION_PRINT_INTERVAL"
  then show "onFalse t1 t2 t3 why p = (p\<lparr>printedAt := Some t1\<rparr>, [])"
    by (simp add: onFalse_def)
next
  show "length (snd (onFalse_stream (every_ms t0 25001 why) \<lparr>printedAt = None\<rparr>)) \<le> 3"
    using stream_25000_count[of t0 why] by linarith
next
  assume "0 < t0 \<and> why \<noteq> []"
  then show "snd (onFalse_stream (every_ms t0 25001 why) \<lparr>printedAt = None\<rparr>) =
        [(t0 + 10001, join why), (t0 + 20002, join why)]"
    by (simp add: stream_25000)
qed

theorem throttled_reporting_witness:
  "clock_mono 1 [(1, 1, 1, [''a'']), (10002, 10002, 10003, [''a'', ''b'']), (20004, 20004, 20004, [''c''])] \<and>
   spaced (map fst (snd (onFalse_stream
      [(1, 1, 1, [''a'']), (10002, 10002, 10003, [''a'', ''b'']), (20004, 20004, 20004, [''c''])]
      \<lparr>printedAt = None\<rparr>))) \<and>
   snd (onFalse_stream
      [(1, 1, 1, [''a'']), (10002, 10002, 10003, [''a'', ''b'']), (20004, 20004, 20004, [''c''])]
      \<lparr>printedAt = None\<rparr>) = [(10003, ''a b''), (20004, ''c'')] \<and>
   onFalse 5 5 5 [''x''] \<lparr>printedAt = None\<rparr> = (\<lparr>printedAt = Some 5\<rparr>, []) \<and>
   snd (onFalse_stream (every_ms 7 25001 [''x'']) \<lparr>printedAt = None\<rparr>) =
     [(10008, ''x''), (20009, ''x'')]"
  using throttled_reporting
    [of 1 "[(1, 1, 1, [''a'']), (10002, 10002, 10003, [''a'', ''b'']), (20004, 20004, 20004, [''c''])]"
        "\<lparr>printedAt = None\<rparr>" 5 5 5 "[''x'']" 7]
  by (simp add: onFalse_def FALSE_CONDITION_PRINT_INTERVAL_def)

section \<open>The watch session: invariants, timers and errors\<close>

lemma set_Set_add: "set (Set_add x xs) = insert x (set xs)"
  by (auto simp: Set_add_def)

lemma set_forEach_add: "set (forEach_add files xs) = set xs \<union> set files"
  unfolding forEach_add_def
  by (induction files arbitrary: xs) (auto simp: set_Set_add)

lemma runCallback_err:
  "runCallback cond interval env (Some e) fts dts s =
     (cancel_pending s)\<lparr>printer := reset (printer s), calls := calls s @ [CallErr e]\<rparr>"
  by (simp add: runCallback_def Let_def)

lemma runCallback_accept:
  assumes "cond (world env) (heap s ! changes s) (heap s ! removals s) = CondTrue"
  shows "runCallback cond interval env None fts dts s =
     (cancel_pending s)
       \<lparr>evals := evals s @ [(heap s ! changes s, heap s ! removals s, CondTrue)],
        heap := heap s @ [[], []],
        changes := length (heap s),
        removals := Suc (length (heap s)),
        printer := reset (printer s),
        calls := calls s @ [CallOk fts dts (changes s) (removals s)]\<rparr>"
  using assms by (simp add: runCallback_def Let_def)

lemma runCallback_reject:
  assumes "cond (world env) (heap s ! changes s) (heap s ! removals s) = CondWhy why"
  shows "runCallback cond interval env None fts dts s =
     (cancel_pending s)
       \<lparr>evals := evals s @ [(heap s ! changes s, heap s ! removals s, CondWhy why)],
        printer := fst (onFalse (now1 env) (now2 env) (now3 env) why (printer s)),
        logged := logged s @ snd (onFalse (now1 env) (now2 env) (now3 env) why (printer s)),
        timers := timers (cancel_pending s) @
          [\<lparr>handle = next_handle s, delay = interval, fileTimestamps = fts, dirTimestamps = dts\<rparr>],
        timeout := Some (next_handle s),
        next_handle := Suc (next_handle s)\<rparr>"
  using assms by (simp add: runCallback_def Let_def split: prod.splits)

lemma cancel_pending_timers:
  assumes "\<forall>t \<in> set (timers s). timeout s = Some (handle t)"
  shows "timers (cancel_pending s) = []"
proof (cases "timeout s")
  case None
  with assms have "timers s = []" by (cases "timers s") auto
  with None show ?thesis by (simp add: cancel_pending_def)
next
  case (Some h)
  with assms have "\<forall>t \<in> set (timers s). handle t = h" by simp
  then have "filter (\<lambda>t. handle t \<noteq> h) (timers s) = []" by (simp add: filter_empty_conv)
  with Some show ?thesis by (simp add: cancel_pending_def clearTimeout_def)
qed

lemma session_ok_timers:
  "session_ok s \<Longrightarrow> \<forall>t \<in> set (timers s). timeout s = Some (handle t)"
  by (cases "timeout s") (auto simp: session_ok_def)

lemma forEach_add_Nil [simp]: "forEach_add [] xs = xs"
  by (simp add: forEach_add_def)

lemma forEach_add_append: "forEach_add (xs @ ys) zs = forEach_add ys (forEach_add xs zs)"
  by (simp add: forEach_add_def)

text \<open>What the handler does to the heap before it calls \<open>runCallback\<close>.\<close>

lemma handler_merge:
  assumes "changes s < length (heap s)" "removals s < length (heap s)" "changes s \<noteq> removals s"
  shows "handler cond interval env None fts dts cf rf s =
     runCallback cond interval env None fts dts
       (s\<lparr>heap := (heap s)[changes s := forEach_add cf (heap s ! changes s),
                             removals s := forEach_add rf (heap s ! removals s)]\<rparr>)"
  using assms by (simp add: handler_def Let_def)

lemma runCallback_ok:
  assumes "changes s < length (heap s)" "removals s < length (heap s)" "changes s \<noteq> removals s"
    and "\<forall>t \<in> set (timers s). timeout s = Some (handle t)"
  shows "session_ok (runCallback cond interval env err fts dts s)"
proof (cases err)
  case (Some e)
  with assms cancel_pending_timers[OF assms(4)] show ?thesis
    by (simp add: runCallback_err session_ok_def)
next
  case None
  show ?thesis
  proof (cases "cond (world env) (heap s ! changes s) (heap s ! removals s)")
    case CondTrue
    with assms cancel_pending_timers[OF assms(4)] None show ?thesis
      by (simp add: runCallback_accept session_ok_def)
  next
    case (CondWhy why)
    with assms cancel_pending_timers[OF assms(4)] None show ?thesis
      by (simp add: runCallback_reject session_ok_def)
  qed
qed

lemma find_timer:
  assumes "session_ok s" "find (\<lambda>t. handle t = h) (timers s) = Some t"
  shows "timers s = [t]" "timeout s = Some h" "clearTimeout h (timers s) = []"
proof -
  from assms(2) have t: "t \<in> set (timers s)" "handle t = h"
    by (auto simp: find_Some_iff)
  with assms(1) show to: "timeout s = Some h"
    using session_ok_timers by blast
  with assms(1) have "map handle (timers s) = [h]" by (simp add: session_ok_def)
  then obtain t' where "timers s = [t']" by auto
  with t show "timers s = [t]" by simp
  with t show "clearTimeout h (timers s) = []" by (simp add: clearTimeout_def)
qed

lemma step_ok:
  assumes "session_ok s"
  shows "session_ok (step cond interval env ev s)"
proof (cases ev)
  case (Notify err fts dts cf rf)
  from assms have b: "changes s < length (heap s)" "removals s < length (heap s)"
    "changes s \<noteq> removals s" by (simp_all add: session_ok_def)
  show ?thesis
  proof (cases err)
    case None
    show ?thesis unfolding Notify None step.simps handler_merge[OF b]
      by (rule runCallback_ok) (use b session_ok_timers[OF assms] in simp_all)
  next
    case (Some e)
    show ?thesis unfolding Notify Some step.simps handler_def
      by (simp, rule runCallback_ok) (use b session_ok_timers[OF assms] in simp_all)
  qed
next
  case (TimerFire h)
  from assms have b: "changes s < length (heap s)" "removals s < length (heap s)"
    "changes s \<noteq> removals s" by (simp_all add: session_ok_def)
  show ?thesis
  proof (cases "find (\<lambda>t. handle t = h) (timers s)")
    case None
    with assms show ?thesis by (simp add: TimerFire fire_def)
  next
    case (Some t)
    have "session_ok (runCallback cond interval env None (fileTimestamps t) (dirTimestamps t)
            (s\<lparr>timers := clearTimeout h (timers s)\<rparr>))"
      by (rule runCallback_ok) (use b find_timer[OF assms Some] in simp_all)
    with Some show ?thesis by (simp add: TimerFire fire_def)
  qed
qed

lemma run_ok: "session_ok s \<Longrightarrow> session_ok (run cond interval evs s)"
  by (induction evs arbitrary: s) (auto simp: step_ok)

lemma watch_ok: "session_ok watch"
  by (simp add: session_ok_def watch_def)

lemma run_append: "run cond interval (xs @ ys) s = run cond interval ys (run cond interval xs s)"
  by (induction xs arbitrary: s) auto

text \<open>
  C5. In every state a watch session reaches, at most one retry timer is pending, and it
  is the one whose handle the variable \<open>timeout\<close> holds. Every run of \<open>runCallback\<close>
  first cancels the outstanding timer (lines 90 to 93 leave none pending), so the only
  timer that can be pending afterwards is the one this run set, under a handle no
  earlier timer has. However many notifications arrive while a retry is pending, one
  retry is pending afterwards.
\<close>

theorem single_pending_timer:
  fixes s :: "('e, 'ts) session" and cond :: "'w condition"
  shows
  "length (timers (run cond interval evs (watch :: ('e, 'ts) session))) \<le> 1 \<and>
   map handle (timers (run cond interval evs (watch :: ('e, 'ts) session))) =
     (case timeout (run cond interval evs (watch :: ('e, 'ts) session)) of None \<Rightarrow> [] | Some h \<Rightarrow> [h]) \<and>
   (session_ok s \<longrightarrow>
      timers (cancel_pending s) = [] \<and>
      next_handle s \<notin> handle ` set (timers s) \<and>
      set (timers (runCallback cond interval env err fts dts s)) \<subseteq>
        {\<lparr>handle = next_handle s, delay = interval, fileTimestamps = fts, dirTimestamps = dts\<rparr>} \<and>
      length (timers (step cond interval env ev s)) \<le> 1)"
proof (intro conjI impI)
  let ?r = "run cond interval evs (watch :: ('e, 'ts) session)"
  have ok: "session_ok ?r"
    by (rule run_ok) (rule watch_ok)
  then show m: "map handle (timers ?r) = (case timeout ?r of None \<Rightarrow> [] | Some h \<Rightarrow> [h])"
    by (simp add: session_ok_def)
  have "length (map handle (timers ?r)) \<le> 1"
    unfolding m by (simp split: option.splits)
  then show "length (timers ?r) \<le> 1" by simp
next
  assume ok: "session_ok s"
  show c: "timers (cancel_pending s) = []"
    by (rule cancel_pending_timers) (rule session_ok_timers[OF ok])
  show "next_handle s \<notin> handle ` set (timers s)"
  proof
    assume "next_handle s \<in> handle ` set (timers s)"
    then obtain t where "t \<in> set (timers s)" "handle t = next_handle s" by auto
    with session_ok_timers[OF ok] have "timeout s = Some (next_handle s)" by auto
    with ok show False by (simp add: session_ok_def)
  qed
  show "set (timers (runCallback cond interval env err fts dts s)) \<subseteq>
        {\<lparr>handle = next_handle s, delay = interval, fileTimestamps = fts, dirTimestamps = dts\<rparr>}"
  proof (cases err)
    case (Some e)
    with c show ?thesis by (simp add: runCallback_err)
  next
    case None
    show ?thesis
    proof (cases "cond (world env) (heap s ! changes s) (heap s ! removals s)")
      case CondTrue
      with c None show ?thesis by (simp add: runCallback_accept)
    next
      case (CondWhy why)
      with c None show ?thesis by (simp add: runCallback_reject)
    qed
  qed
  have "session_ok (step cond interval env ev s)" by (rule step_ok[OF ok])
  then have "length (map handle (timers (step cond interval env ev s))) \<le> 1"
    by (simp add: session_ok_def split: option.splits)
  then show "length (timers (step cond interval env ev s)) \<le> 1" by simp
qed

theorem single_pending_timer_witness:
  "timers (run (\<lambda>w cs rs. CondWhy [''busy'']) 200
      [(at_instant () 5, Notify None (1::nat) 1 [''a''] []),
       (at_instant () 6, Notify None 2 2 [''b''] []),
       (at_instant () 7, Notify None 3 3 [] [''c''])] (watch :: (unit, nat) session)) =
     [\<lparr>handle = 3, delay = 200, fileTimestamps = 3, dirTimestamps = 3\<rparr>] \<and>
   session_ok (step (\<lambda>w cs rs. CondWhy [''busy'']) 200 (at_instant () 5)
      (Notify None (1::nat) 1 [''a''] []) (watch :: (unit, nat) session)) \<and>
   timers (step (\<lambda>w cs rs. CondWhy [''busy'']) 200 (at_instant () 5)
      (Notify None (1::nat) 1 [''a''] []) (watch :: (unit, nat) session)) =
     [\<lparr>handle = 1, delay = 200, fileTimestamps = 1, dirTimestamps = 1\<rparr>] \<and>
   timers (runCallback (\<lambda>w cs rs. CondWhy [''busy'']) 200 (at_instant () 6) None 2 2
      (step (\<lambda>w cs rs. CondWhy [''busy'']) 200 (at_instant () 5)
        (Notify None (1::nat) 1 [''a''] []) (watch :: (unit, nat) session))) =
     [\<lparr>handle = 2, delay = 200, fileTimestamps = 2, dirTimestamps = 2\<rparr>]"
  using single_pending_timer
    [of "\<lambda>w cs rs. CondWhy [''busy'']" 200
        "[(at_instant () 5, Notify None (1::nat) 1 [''a''] []),
          (at_instant () 6, Notify None 2 2 [''b''] []),
          (at_instant () 7, Notify None 3 3 [] [''c''])]"
        "step (\<lambda>w cs rs. CondWhy [''busy'']) 200 (at_instant () 5)
          (Notify None (1::nat) 1 [''a''] []) (watch :: (unit, nat) session)"
        "at_instant () 6" None 2 2 "TimerFire 1"]
  by (simp add: handler_def runCallback_def cancel_pending_def clearTimeout_def onFalse_def
      at_instant_def watch_def session_ok_def forEach_add_def Set_add_def
      FALSE_CONDITION_PRINT_INTERVAL_def Let_def)

lemma step_err:
  "step cond interval env (Notify (Some e) fts dts cf rf) s =
     (cancel_pending s)\<lparr>printer := reset (printer s), calls := calls s @ [CallErr e]\<rparr>"
  by (simp add: handler_def runCallback_err)

text \<open>
  C4. A raw notification with an upstream error calls the downstream callback with that
  error alone. The predicate is not evaluated: the step makes no evaluation and does not
  depend on the predicate, the world, the clock, the interval or the notification's
  other arguments. No timer is set: none is pending afterwards and no handle was used.
  The heap and the two accumulated sets are as before, and the printer's window start
  is cleared.
\<close>

theorem error_short_circuit:
  fixes s :: "('e, 'ts) session" and cond :: "'w condition" and cond' :: "'v condition"
  shows
  "calls (step cond interval env (Notify (Some e) fts dts cf rf) s) = calls s @ [CallErr e] \<and>
   evals (step cond interval env (Notify (Some e) fts dts cf rf) s) = evals s \<and>
   step cond interval env (Notify (Some e) fts dts cf rf) s =
     step cond' interval' env' (Notify (Some e) fts' dts' cf' rf') s \<and>
   set (timers (step cond interval env (Notify (Some e) fts dts cf rf) s)) \<subseteq> set (timers s) \<and>
   (session_ok s \<longrightarrow> timers (step cond interval env (Notify (Some e) fts dts cf rf) s) = []) \<and>
   timeout (step cond interval env (Notify (Some e) fts dts cf rf) s) = None \<and>
   next_handle (step cond interval env (Notify (Some e) fts dts cf rf) s) = next_handle s \<and>
   heap (step cond interval env (Notify (Some e) fts dts cf rf) s) = heap s \<and>
   changes (step cond interval env (Notify (Some e) fts dts cf rf) s) = changes s \<and>
   removals (step cond interval env (Notify (Some e) fts dts cf rf) s) = removals s \<and>
   printedAt (printer (step cond interval env (Notify (Some e) fts dts cf rf) s)) = None \<and>
   logged (step cond interval env (Notify (Some e) fts dts cf rf) s) = logged s"
proof -
  have sub: "set (timers (cancel_pending s)) \<subseteq> set (timers s)"
    by (auto simp: cancel_pending_def clearTimeout_def split: option.splits)
  have emp: "session_ok s \<Longrightarrow> timers (cancel_pending s) = []"
    by (rule cancel_pending_timers) (rule session_ok_timers)
  show ?thesis
    unfolding step_err using sub emp by (simp add: reset_def)
qed

theorem error_short_circuit_witness:
  "step (\<lambda>w cs rs. CondWhy [''busy'']) 200 (at_instant () 6) (Notify (Some ''EIO'') (2::nat) 2 [''b''] [''c''])
     (step (\<lambda>w cs rs. CondWhy [''busy'']) 200 (at_instant () 5)
        (Notify None 1 1 [''a''] []) watch) =
   \<lparr>heap = [[''a''], []], changes = 0, removals = 1, timeout = None,
     printer = \<lparr>printedAt = None\<rparr>, timers = [], next_handle = 2,
     calls = [CallErr ''EIO''], logged = [], evals = [([''a''], [], CondWhy [''busy''])]\<rparr> \<and>
   session_ok (step (\<lambda>w cs rs. CondWhy [''busy'']) 200 (at_instant () 5)
        (Notify None (1::nat) 1 [''a''] []) (watch :: (string, nat) session)) \<and>
   printedAt (printer (step (\<lambda>w cs rs. CondWhy [''busy'']) 200 (at_instant () 5)
        (Notify None (1::nat) 1 [''a''] []) (watch :: (string, nat) session))) = Some 5"
  using error_short_circuit
    [of "\<lambda>w cs rs. CondWhy [''busy'']" 200 "at_instant () 6" "''EIO''" "2::nat" 2 "[''b'']" "[''c'']"
        "step (\<lambda>w cs rs. CondWhy [''busy'']) 200 (at_instant () 5)
          (Notify None 1 1 [''a''] []) watch"
        "\<lambda>w cs rs. CondTrue" 0 "at_instant () 0" 0 0 "[]" "[]"]
  by (simp add: handler_def runCallback_def cancel_pending_def clearTimeout_def onFalse_def
      at_instant_def watch_def session_ok_def forEach_add_def Set_add_def reset_def
      FALSE_CONDITION_PRINT_INTERVAL_def Let_def)

section \<open>The watch session: accumulation and snapshots\<close>

text \<open>
  A step on an error-free event either evaluates nothing (a timer that is not pending),
  or merges the event's ids into the two sets and then rejects or accepts.
\<close>

lemma step_cases [consumes 2, case_names idle rejected accepted]:
  fixes s :: "('e, 'ts) session"
  assumes "session_ok s" "error_free ev"
  obtains
    (idle) "step cond interval env ev s = s" "changed_of ev = []" "removed_of ev = []"
  | (rejected) why where
      "evals (step cond interval env ev s) = evals s @
         [(forEach_add (changed_of ev) (heap s ! changes s),
           forEach_add (removed_of ev) (heap s ! removals s), CondWhy why)]"
      "calls (step cond interval env ev s) = calls s"
      "changes (step cond interval env ev s) = changes s"
      "removals (step cond interval env ev s) = removals s"
      "heap (step cond interval env ev s) =
         (heap s)[changes s := forEach_add (changed_of ev) (heap s ! changes s),
                  removals s := forEach_add (removed_of ev) (heap s ! removals s)]"
  | (accepted) fts dts where
      "evals (step cond interval env ev s) = evals s @
         [(forEach_add (changed_of ev) (heap s ! changes s),
           forEach_add (removed_of ev) (heap s ! removals s), CondTrue)]"
      "calls (step cond interval env ev s) = calls s @ [CallOk fts dts (changes s) (removals s)]"
      "changes (step cond interval env ev s) = length (heap s)"
      "removals (step cond interval env ev s) = Suc (length (heap s))"
      "heap (step cond interval env ev s) =
         (heap s)[changes s := forEach_add (changed_of ev) (heap s ! changes s),
                  removals s := forEach_add (removed_of ev) (heap s ! removals s)] @ [[], []]"
proof -
  from assms(1) have b: "changes s < length (heap s)" "removals s < length (heap s)"
    "changes s \<noteq> removals s" by (simp_all add: session_ok_def)
  define A where "A = forEach_add (changed_of ev) (heap s ! changes s)"
  define B where "B = forEach_add (removed_of ev) (heap s ! removals s)"
  define m where "m = (heap s)[changes s := A, removals s := B]"
  have m: "m ! changes s = A" "m ! removals s = B" "length m = length (heap s)"
    using b by (simp_all add: m_def)
  have run: "thesis"
    if st: "step cond interval env ev s = runCallback cond interval env None fts dts s1"
      and s1: "heap s1 = m" "changes s1 = changes s" "removals s1 = removals s"
        "evals s1 = evals s" "calls s1 = calls s"
    for fts dts and s1 :: "('e, 'ts) session"
  proof (cases "cond (world env) A B")
    case CondTrue
    then have c: "cond (world env) (heap s1 ! changes s1) (heap s1 ! removals s1) = CondTrue"
      by (simp add: s1 m)
    show ?thesis
      by (rule accepted[of fts dts])
        (simp_all add: st runCallback_accept[where cond = cond and env = env and s = s1, OF c] s1 m A_def[symmetric] B_def[symmetric] m_def[symmetric])
  next
    case (CondWhy why)
    then have c: "cond (world env) (heap s1 ! changes s1) (heap s1 ! removals s1) = CondWhy why"
      by (simp add: s1 m)
    show ?thesis
      by (rule rejected[of why])
        (simp_all add: st runCallback_reject[where cond = cond and env = env and s = s1, OF c] s1 m A_def[symmetric] B_def[symmetric] m_def[symmetric])
  qed
  show thesis
  proof (cases ev)
    case (Notify err fts dts cf rf)
    with assms(2) have err: "err = None" by simp
    show ?thesis
      by (rule run[of fts dts "s\<lparr>heap := m\<rparr>"])
        (simp_all add: Notify err handler_merge[OF b] m_def A_def B_def)
  next
    case (TimerFire h)
    have mm: "m = heap s" by (simp add: m_def A_def B_def TimerFire)
    show ?thesis
    proof (cases "find (\<lambda>t. handle t = h) (timers s)")
      case None
      show ?thesis by (rule idle) (simp_all add: TimerFire fire_def None)
    next
      case (Some t)
      show ?thesis
        by (rule run[of "fileTimestamps t" "dirTimestamps t" "s\<lparr>timers := clearTimeout h (timers s)\<rparr>"])
          (simp_all add: TimerFire fire_def Some mm)
    qed
  qed
qed

text \<open>
  A set that is live but held by neither of the session's two variables is never written
  again and never comes back into the variables.
\<close>

lemma step_frame:
  fixes s :: "('e, 'ts) session"
  assumes ok: "session_ok s" and a: "a < length (heap s)" "a \<noteq> changes s" "a \<noteq> removals s"
  shows "heap (step cond interval env ev s) ! a = heap s ! a \<and>
         a < length (heap (step cond interval env ev s)) \<and>
         a \<noteq> changes (step cond interval env ev s) \<and>
         a \<noteq> removals (step cond interval env ev s)"
proof (cases "error_free ev")
  case True
  from ok True show ?thesis
  proof (cases rule: step_cases[where cond = cond and interval = interval and env = env])
    case idle
    with a show ?thesis by simp
  next
    case (rejected why)
    with a show ?thesis by simp
  next
    case (accepted fts dts)
    with a show ?thesis by (simp add: nth_append)
  qed
next
  case False
  then obtain e fts dts cf rf where "ev = Notify (Some e) fts dts cf rf"
    by (cases ev) auto
  with a show ?thesis by (simp only: step_err) simp
qed

lemma run_frame:
  fixes s :: "('e, 'ts) session"
  assumes "session_ok s" "a < length (heap s)" "a \<noteq> changes s" "a \<noteq> removals s"
  shows "heap (run cond interval evs s) ! a = heap s ! a \<and>
         a \<noteq> changes (run cond interval evs s) \<and>
         a \<noteq> removals (run cond interval evs s)"
  using assms
proof (induction evs arbitrary: s)
  case Nil
  then show ?case by simp
next
  case (Cons x evs)
  obtain env ev where x: "x = (env, ev)" by (cases x) auto
  from step_frame[OF Cons.prems, of cond interval env ev] step_ok[OF Cons.prems(1), of cond interval env ev]
    Cons.IH[of "step cond interval env ev s"]
  show ?case by (simp add: x)
qed

text \<open>
  C3. When a step delivers a snapshot, the two references handed to the callback are
  the session's old sets, still holding the accumulated ids (nothing was cleared in
  place), and the session's variables point at two new empty sets at fresh addresses.
  Whatever events the session handles afterwards, the delivered sets keep their contents
  and never become the session's accumulation sets again.
\<close>

theorem snapshot_isolation:
  fixes s :: "('e, 'ts) session"
  assumes "session_ok s"
    and "calls (step cond interval env ev s) = calls s @ [CallOk fts dts c r]"
  shows "c = changes s \<and> r = removals s \<and>
     changes (step cond interval env ev s) = length (heap s) \<and>
     removals (step cond interval env ev s) = Suc (length (heap s)) \<and>
     heap (step cond interval env ev s) ! changes (step cond interval env ev s) = [] \<and>
     heap (step cond interval env ev s) ! removals (step cond interval env ev s) = [] \<and>
     heap (step cond interval env ev s) ! c = forEach_add (changed_of ev) (heap s ! c) \<and>
     heap (step cond interval env ev s) ! r = forEach_add (removed_of ev) (heap s ! r) \<and>
     heap (run cond interval evs (step cond interval env ev s)) ! c =
       heap (step cond interval env ev s) ! c \<and>
     heap (run cond interval evs (step cond interval env ev s)) ! r =
       heap (step cond interval env ev s) ! r \<and>
     changes (run cond interval evs (step cond interval env ev s)) \<notin> {c, r} \<and>
     removals (run cond interval evs (step cond interval env ev s)) \<notin> {c, r}"
proof -
  let ?s' = "step cond interval env ev s"
  from assms(1) have b: "changes s < length (heap s)" "removals s < length (heap s)"
    "changes s \<noteq> removals s" by (simp_all add: session_ok_def)
  have ef: "error_free ev"
  proof (rule ccontr)
    assume "\<not> error_free ev"
    then obtain e f d cf rf where "ev = Notify (Some e) f d cf rf" by (cases ev) auto
    with assms(2) show False by (simp only: step_err) simp
  qed
  from assms(1) ef have acc:
    "c = changes s \<and> r = removals s \<and> changes ?s' = length (heap s) \<and>
     removals ?s' = Suc (length (heap s)) \<and>
     heap ?s' = (heap s)[changes s := forEach_add (changed_of ev) (heap s ! changes s),
                  removals s := forEach_add (removed_of ev) (heap s ! removals s)] @ [[], []]"
  proof (cases rule: step_cases[where cond = cond and interval = interval and env = env])
    case idle
    with assms(2) show ?thesis by simp
  next
    case (rejected why)
    with assms(2) show ?thesis by simp
  next
    case (accepted fts' dts')
    with assms(2) show ?thesis by simp
  qed
  have ok': "session_ok ?s'" by (rule step_ok[OF assms(1)])
  have len: "c < length (heap ?s')" "r < length (heap ?s')"
    using acc b by simp_all
  have ne: "c \<noteq> changes ?s'" "c \<noteq> removals ?s'" "r \<noteq> changes ?s'" "r \<noteq> removals ?s'"
    using acc b by simp_all
  have here: "heap ?s' ! changes ?s' = []" "heap ?s' ! removals ?s' = []"
    "heap ?s' ! c = forEach_add (changed_of ev) (heap s ! c)"
    "heap ?s' ! r = forEach_add (removed_of ev) (heap s ! r)"
    using acc b by (simp_all add: nth_append)
  from run_frame[OF ok' len(1) ne(1,2), of cond interval evs]
    run_frame[OF ok' len(2) ne(3,4), of cond interval evs] acc here
  show ?thesis by simp
qed

theorem snapshot_isolation_witness:
  "session_ok (watch :: (unit, nat) session) \<and>
   calls (step (\<lambda>w cs rs. CondTrue) 200 (at_instant () 5) (Notify None (1::nat) 1 [''a''] [''b''])
      (watch :: (unit, nat) session)) = calls (watch :: (unit, nat) session) @ [CallOk 1 1 0 1] \<and>
   heap (step (\<lambda>w cs rs. CondTrue) 200 (at_instant () 5) (Notify None (1::nat) 1 [''a''] [''b''])
      (watch :: (unit, nat) session)) = [[''a''], [''b''], [], []] \<and>
   heap (run (\<lambda>w cs rs. CondTrue) 200 [(at_instant () 9, Notify None 2 2 [''c''] [''a''])]
      (step (\<lambda>w cs rs. CondTrue) 200 (at_instant () 5) (Notify None (1::nat) 1 [''a''] [''b''])
        (watch :: (unit, nat) session))) = [[''a''], [''b''], [''c''], [''a''], [], []] \<and>
   changes (run (\<lambda>w cs rs. CondTrue) 200 [(at_instant () 9, Notify None 2 2 [''c''] [''a''])]
      (step (\<lambda>w cs rs. CondTrue) 200 (at_instant () 5) (Notify None (1::nat) 1 [''a''] [''b''])
        (watch :: (unit, nat) session))) = 4"
  using snapshot_isolation
    [of "watch :: (unit, nat) session" "\<lambda>w cs rs. CondTrue" 200 "at_instant () 5"
        "Notify None (1::nat) 1 [''a''] [''b'']" 1 1 0 1
        "[(at_instant () 9, Notify None 2 2 [''c''] [''a''])]"]
  by (simp add: handler_def runCallback_def cancel_pending_def at_instant_def watch_def
      session_ok_def forEach_add_def Set_add_def reset_def Let_def)

lemma step_evals:
  fixes s :: "('e, 'ts) session"
  assumes "session_ok s"
  shows "\<exists>xs. evals (step cond interval env ev s) = evals s @ xs"
proof (cases "error_free ev")
  case True
  from assms True show ?thesis
    by (cases rule: step_cases[where cond = cond and interval = interval and env = env]) simp_all
next
  case False
  then obtain e fts dts cf rf where "ev = Notify (Some e) fts dts cf rf"
    by (cases ev) auto
  then show ?thesis by (simp only: step_err) simp
qed

lemma run_evals:
  fixes s :: "('e, 'ts) session"
  assumes "session_ok s"
  shows "\<exists>xs. evals (run cond interval evs s) = evals s @ xs"
  using assms
proof (induction evs arbitrary: s)
  case Nil
  then show ?case by simp
next
  case (Cons x evs)
  obtain env ev where x: "x = (env, ev)" by (cases x) auto
  from step_evals[OF Cons.prems, of cond interval env ev]
  obtain xs where 1: "evals (step cond interval env ev s) = evals s @ xs" by blast
  from Cons.IH[OF step_ok[OF Cons.prems], of cond interval env ev]
  obtain ys where "evals (run cond interval evs (step cond interval env ev s)) =
      evals (step cond interval env ev s) @ ys" by blast
  with 1 show ?case by (simp add: x)
qed

lemma verdicts_since_trans:
  assumes "evals s1 = evals s0 @ xs" "evals s2 = evals s1 @ ys"
  shows "verdicts_since s0 s2 = verdicts_since s0 s1 @ verdicts_since s1 s2"
  using assms by (simp add: verdicts_since_def)

text \<open>While every evaluation rejects, nothing is delivered and the two sets only grow.\<close>

lemma rejected_run:
  fixes s :: "('e, 'ts) session"
  assumes "session_ok s" "\<forall>x \<in> set evs. error_free (snd x)"
    and "CondTrue \<notin> set (verdicts_since s (run cond interval evs s))"
  shows "changes (run cond interval evs s) = changes s \<and>
         removals (run cond interval evs s) = removals s \<and>
         calls (run cond interval evs s) = calls s \<and>
         heap (run cond interval evs s) ! changes s =
           forEach_add (concat (map (\<lambda>x. changed_of (snd x)) evs)) (heap s ! changes s) \<and>
         heap (run cond interval evs s) ! removals s =
           forEach_add (concat (map (\<lambda>x. removed_of (snd x)) evs)) (heap s ! removals s)"
  using assms
proof (induction evs arbitrary: s)
  case Nil
  then show ?case by simp
next
  case (Cons x evs)
  obtain env ev where x: "x = (env, ev)" by (cases x) auto
  let ?s' = "step cond interval env ev s"
  from Cons.prems(1) have b: "changes s < length (heap s)" "removals s < length (heap s)"
    "changes s \<noteq> removals s" by (simp_all add: session_ok_def)
  have ok': "session_ok ?s'" by (rule step_ok[OF Cons.prems(1)])
  from step_evals[OF Cons.prems(1), of cond interval env ev]
  obtain xs where xs: "evals ?s' = evals s @ xs" by blast
  from run_evals[OF ok', of cond interval evs]
  obtain ys where ys: "evals (run cond interval evs ?s') = evals ?s' @ ys" by blast
  have vs: "verdicts_since s (run cond interval evs ?s') =
      verdicts_since s ?s' @ verdicts_since ?s' (run cond interval evs ?s')"
    by (rule verdicts_since_trans[OF xs ys])
  from Cons.prems(3) have rej: "CondTrue \<notin> set (verdicts_since s ?s')"
    "CondTrue \<notin> set (verdicts_since ?s' (run cond interval evs ?s'))"
    by (simp_all add: x vs)
  from Cons.prems(2) have ef: "error_free ev" "\<forall>x \<in> set evs. error_free (snd x)"
    by (simp_all add: x)
  note ih = Cons.IH[OF ok' ef(2) rej(2)]
  from Cons.prems(1) ef(1) show ?case
  proof (cases rule: step_cases[where cond = cond and interval = interval and env = env])
    case idle
    with ih show ?thesis by (simp add: x)
  next
    case (rejected why)
    with ih b show ?thesis by (simp add: x forEach_add_append)
  next
    case (accepted fts dts)
    with rej(1) show ?thesis by (simp add: verdicts_since_def)
  qed
qed

text \<open>
  C1. Take a session in any state it can be in, a sequence of error-free events
  (raw notifications and retries), and one more such event. If every evaluation of the
  predicate during the sequence rejects and the evaluation at the last event accepts,
  then the callback is called exactly once, at the last event, with the references of the
  two accumulated sets, and these hold what was accumulated before together with all
  changed ids, respectively all removed ids, of the whole sequence. The two sets are
  filled independently: an id that was both changed and removed is in both. At the
  start of a session and after each acceptance the accumulated sets are empty.
\<close>

theorem accumulation:
  fixes s :: "('e, 'ts) session"
  assumes "session_ok s"
    and "\<forall>x \<in> set evs. error_free (snd x)" and "error_free ev"
    and "CondTrue \<notin> set (verdicts_since s (run cond interval evs s))"
    and "verdicts_since (run cond interval evs s) (run cond interval (evs @ [(env, ev)]) s) = [CondTrue]"
  shows "(\<exists>fts dts. calls (run cond interval (evs @ [(env, ev)]) s) =
            calls s @ [CallOk fts dts (changes s) (removals s)]) \<and>
     set (heap (run cond interval (evs @ [(env, ev)]) s) ! changes s) =
       set (heap s ! changes s) \<union> (\<Union>x \<in> set (evs @ [(env, ev)]). set (changed_of (snd x))) \<and>
     set (heap (run cond interval (evs @ [(env, ev)]) s) ! removals s) =
       set (heap s ! removals s) \<union> (\<Union>x \<in> set (evs @ [(env, ev)]). set (removed_of (snd x))) \<and>
     heap (run cond interval (evs @ [(env, ev)]) s) ! changes s =
       forEach_add (concat (map (\<lambda>x. changed_of (snd x)) (evs @ [(env, ev)]))) (heap s ! changes s) \<and>
     heap (run cond interval (evs @ [(env, ev)]) s) ! removals s =
       forEach_add (concat (map (\<lambda>x. removed_of (snd x)) (evs @ [(env, ev)]))) (heap s ! removals s)"
proof -
  let ?s1 = "run cond interval evs s"
  let ?s2 = "step cond interval env ev ?s1"
  have s2: "run cond interval (evs @ [(env, ev)]) s = ?s2" by (simp add: run_append)
  from assms(1) have b: "changes s < length (heap s)" "removals s < length (heap s)"
    "changes s \<noteq> removals s" by (simp_all add: session_ok_def)
  have ok1: "session_ok ?s1" by (rule run_ok[OF assms(1)])
  note r = rejected_run[OF assms(1,2,4)]
  from ok1 have b1: "changes s < length (heap ?s1)" "removals s < length (heap ?s1)"
    using r by (simp_all add: session_ok_def)
  from ok1 assms(3) have
    "(\<exists>fts dts. calls ?s2 = calls s @ [CallOk fts dts (changes s) (removals s)]) \<and>
     heap ?s2 ! changes s = forEach_add (changed_of ev) (heap ?s1 ! changes s) \<and>
     heap ?s2 ! removals s = forEach_add (removed_of ev) (heap ?s1 ! removals s)"
  proof (cases rule: step_cases[where cond = cond and interval = interval and env = env])
    case idle
    with assms(5) show ?thesis by (simp add: s2 verdicts_since_def)
  next
    case (rejected why)
    with assms(5) show ?thesis by (simp add: s2 verdicts_since_def)
  next
    case (accepted fts dts)
    with r b b1 show ?thesis by (auto simp: nth_append)
  qed
  with r have lists:
    "(\<exists>fts dts. calls ?s2 = calls s @ [CallOk fts dts (changes s) (removals s)])"
    "heap ?s2 ! changes s =
       forEach_add (concat (map (\<lambda>x. changed_of (snd x)) (evs @ [(env, ev)]))) (heap s ! changes s)"
    "heap ?s2 ! removals s =
       forEach_add (concat (map (\<lambda>x. removed_of (snd x)) (evs @ [(env, ev)]))) (heap s ! removals s)"
    by (simp_all add: forEach_add_append)
  have u1: "set (heap ?s2 ! changes s) =
       set (heap s ! changes s) \<union> (\<Union>x \<in> set (evs @ [(env, ev)]). set (changed_of (snd x)))"
    unfolding lists(2) set_forEach_add by auto
  have u2: "set (heap ?s2 ! removals s) =
       set (heap s ! removals s) \<union> (\<Union>x \<in> set (evs @ [(env, ev)]). set (removed_of (snd x)))"
    unfolding lists(3) set_forEach_add by auto
  show ?thesis unfolding s2 using lists u1 u2 by blast
qed

theorem accumulation_witness:
  "session_ok (watch :: (unit, nat) session) \<and>
   verdicts_since (watch :: (unit, nat) session)
     (run (\<lambda>w cs rs. if 3 \<le> length cs then CondTrue else CondWhy [''wait'']) 200
        [(at_instant () 5, Notify None (1::nat) 1 [''a''] [''b'']),
         (at_instant () 205, TimerFire 1),
         (at_instant () 300, Notify None 2 2 [''b''] [''a''])] watch) =
     [CondWhy [''wait''], CondWhy [''wait''], CondWhy [''wait'']] \<and>
   calls (run (\<lambda>w cs rs. if 3 \<le> length cs then CondTrue else CondWhy [''wait'']) 200
        ([(at_instant () 5, Notify None (1::nat) 1 [''a''] [''b'']),
          (at_instant () 205, TimerFire 1),
          (at_instant () 300, Notify None 2 2 [''b''] [''a''])] @
         [(at_instant () 400, Notify None 3 3 [''c'', ''a''] [])])
        (watch :: (unit, nat) session)) = [CallOk 3 3 0 1] \<and>
   heap (run (\<lambda>w cs rs. if 3 \<le> length cs then CondTrue else CondWhy [''wait'']) 200
        ([(at_instant () 5, Notify None (1::nat) 1 [''a''] [''b'']),
          (at_instant () 205, TimerFire 1),
          (at_instant () 300, Notify None 2 2 [''b''] [''a''])] @
         [(at_instant () 400, Notify None 3 3 [''c'', ''a''] [])])
        (watch :: (unit, nat) session)) =
     [[''a'', ''b'', ''c''], [''b'', ''a''], [], []]"
  using accumulation
    [of "watch :: (unit, nat) session"
        "[(at_instant () 5, Notify None (1::nat) 1 [''a''] [''b'']),
          (at_instant () 205, TimerFire 1),
          (at_instant () 300, Notify None 2 2 [''b''] [''a''])]"
        "Notify None 3 3 [''c'', ''a''] []"
        "\<lambda>w cs rs. if 3 \<le> length cs then CondTrue else CondWhy [''wait'']" 200
        "at_instant () 400"]
  by (simp add: handler_def fire_def runCallback_def cancel_pending_def clearTimeout_def
      onFalse_def at_instant_def watch_def session_ok_def forEach_add_def Set_add_def reset_def
      verdicts_since_def FALSE_CONDITION_PRINT_INTERVAL_def Let_def)

text \<open>
  C2. The predicate accepts exactly when the accumulated changed set has at least two
  elements. Two notifications, each with one changed id and no removal, the ids distinct:
  after the first the callback has not been called; after the second it has been called
  exactly once, with the second notification's timestamps and the references of the two
  sets, which hold both ids and nothing. The same holds when the retry timer of the first
  rejection fires in between.
\<close>

theorem two_notifications:
  fixes cond :: "'w condition"
  assumes "\<forall>w cs rs. (cond w cs rs = CondTrue) = (2 \<le> length cs)" and "a \<noteq> b"
  shows
    "calls (run cond interval [(env1, Notify None f1 d1 [a] [])] (watch :: ('e, 'ts) session)) = [] \<and>
     calls (run cond interval
        [(env1, Notify None f1 d1 [a] []), (env2, Notify None f2 d2 [b] [])]
        (watch :: ('e, 'ts) session)) = [CallOk f2 d2 0 1] \<and>
     heap (run cond interval
        [(env1, Notify None f1 d1 [a] []), (env2, Notify None f2 d2 [b] [])]
        (watch :: ('e, 'ts) session)) ! 0 = [a, b] \<and>
     heap (run cond interval
        [(env1, Notify None f1 d1 [a] []), (env2, Notify None f2 d2 [b] [])]
        (watch :: ('e, 'ts) session)) ! 1 = [] \<and>
     calls (run cond interval
        [(env1, Notify None f1 d1 [a] []), (env3, TimerFire 1), (env2, Notify None f2 d2 [b] [])]
        (watch :: ('e, 'ts) session)) = [CallOk f2 d2 0 1] \<and>
     heap (run cond interval
        [(env1, Notify None f1 d1 [a] []), (env3, TimerFire 1), (env2, Notify None f2 d2 [b] [])]
        (watch :: ('e, 'ts) session)) ! 0 = [a, b] \<and>
     heap (run cond interval
        [(env1, Notify None f1 d1 [a] []), (env3, TimerFire 1), (env2, Notify None f2 d2 [b] [])]
        (watch :: ('e, 'ts) session)) ! 1 = []"
proof -
  have rej: "\<exists>why. cond w [a] [] = CondWhy why" for w
    using assms(1)[rule_format, of w "[a]" "[]"] by (cases "cond w [a] []") simp_all
  obtain why1 where r1: "cond (world env1) [a] [] = CondWhy why1" using rej by blast
  obtain why3 where r3: "cond (world env3) [a] [] = CondWhy why3" using rej by blast
  have acc: "cond (world env2) [a, b] [] = CondTrue"
    using assms(1) by simp
  show ?thesis
    using assms(2)
    by (simp add: handler_def fire_def runCallback_def cancel_pending_def clearTimeout_def
        watch_def forEach_add_def Set_add_def reset_def r1 r3 acc Let_def split_def)
qed

theorem two_notifications_witness:
  "''src/a.ts'' \<noteq> ''src/b.ts'' \<and>
   calls (run (\<lambda>w cs rs. if 2 \<le> length cs then CondTrue else CondWhy [''one'']) 200
      [(at_instant () 5, Notify None (1::nat) 1 [''src/a.ts''] [])] (watch :: (unit, nat) session)) = [] \<and>
   calls (run (\<lambda>w cs rs. if 2 \<le> length cs then CondTrue else CondWhy [''one'']) 200
      [(at_instant () 5, Notify None (1::nat) 1 [''src/a.ts''] []),
       (at_instant () 9, Notify None 2 2 [''src/b.ts''] [])]
      (watch :: (unit, nat) session)) = [CallOk 2 2 0 1] \<and>
   heap (run (\<lambda>w cs rs. if 2 \<le> length cs then CondTrue else CondWhy [''one'']) 200
      [(at_instant () 5, Notify None (1::nat) 1 [''src/a.ts''] []),
       (at_instant () 9, Notify None 2 2 [''src/b.ts''] [])]
      (watch :: (unit, nat) session)) ! 0 = [''src/a.ts'', ''src/b.ts''] \<and>
   heap (run (\<lambda>w cs rs. if 2 \<le> length cs then CondTrue else CondWhy [''one'']) 200
      [(at_instant () 5, Notify None (1::nat) 1 [''src/a.ts''] []),
       (at_instant () 9, Notify None 2 2 [''src/b.ts''] [])]
      (watch :: (unit, nat) session)) ! 1 = []"
  using two_notifications
    [of "\<lambda>w cs rs. if 2 \<le> length cs then CondTrue else CondWhy [''one'']"
        "''src/a.ts''" "''src/b.ts''" 200 "at_instant () 5" "1::nat" 1
        "at_instant () 9" 2 2 "at_instant () 7", where ?'e = unit]
  by simp

section \<open>The plugin: interval, startup barrier and reporters\<close>

lemma cancel_pending_timers_subset: "set (timers (cancel_pending s)) \<subseteq> set (timers s)"
  by (auto simp: cancel_pending_def clearTimeout_def split: option.splits)

lemma runCallback_delays:
  fixes s :: "('e, 'ts) session"
  assumes "\<forall>t \<in> set (timers s). delay t = interval"
  shows "\<forall>t \<in> set (timers (runCallback cond interval env err fts dts s)). delay t = interval"
proof (cases err)
  case (Some e)
  with assms cancel_pending_timers_subset[of s] show ?thesis
    by (auto simp: runCallback_err)
next
  case None
  show ?thesis
  proof (cases "cond (world env) (heap s ! changes s) (heap s ! removals s)")
    case CondTrue
    with assms cancel_pending_timers_subset[of s] None show ?thesis
      by (auto simp: runCallback_accept)
  next
    case (CondWhy why)
    with assms cancel_pending_timers_subset[of s] None show ?thesis
      by (auto simp: runCallback_reject)
  qed
qed

lemma step_delays:
  fixes s :: "('e, 'ts) session"
  assumes "\<forall>t \<in> set (timers s). delay t = interval"
  shows "\<forall>t \<in> set (timers (step cond interval env ev s)). delay t = interval"
proof (cases ev)
  case (Notify err fts dts cf rf)
  show ?thesis unfolding Notify step.simps handler_def
    by (rule runCallback_delays) (use assms in \<open>simp add: Let_def\<close>)
next
  case (TimerFire h)
  show ?thesis
  proof (cases "find (\<lambda>t. handle t = h) (timers s)")
    case None
    with assms show ?thesis by (simp add: TimerFire fire_def)
  next
    case (Some t)
    have "\<forall>t \<in> set (timers (runCallback cond interval env None (fileTimestamps t) (dirTimestamps t)
            (s\<lparr>timers := clearTimeout h (timers s)\<rparr>))). delay t = interval"
      by (rule runCallback_delays) (use assms in \<open>simp add: clearTimeout_def\<close>)
    with Some show ?thesis by (simp add: TimerFire fire_def)
  qed
qed

lemma barrier_turn_frame [simp]:
  "apply_interval (barrier_turn opts env p) = apply_interval p"
  "sessions (barrier_turn opts env p) = sessions p"
  "firstRun (barrier_turn opts env p) = firstRun p"
  "wrapped (barrier_turn opts env p) = wrapped p"
  "barrier_entries (barrier_turn opts env p) = barrier_entries p"
  by (simp_all add: barrier_turn_def Let_def split: cond_result.splits prod.splits)

lemma barrier_turn_sleeps:
  "set (barrier_sleeps (barrier_turn opts env p)) \<subseteq> insert (apply_interval p) (set (barrier_sleeps p))"
  by (auto simp: barrier_turn_def Let_def split: cond_result.splits prod.splits)

lemma plugin_step_intervals:
  fixes p :: "('e, 'ts) plugin"
  assumes "intervals_ok d p"
  shows "intervals_ok d (plugin_step opts env ev p)"
proof (cases ev)
  case WatchRun
  with assms barrier_turn_sleeps[of opts env "p\<lparr>firstRun := False, barrier_entries := Suc (barrier_entries p)\<rparr>"]
  show ?thesis by (auto simp: intervals_ok_def watchRun_def list_all_iff)
next
  case Wake
  with assms barrier_turn_sleeps[of opts env p]
  show ?thesis by (auto simp: intervals_ok_def wake_def list_all_iff)
next
  case AfterEnvironment
  with assms show ?thesis by (simp add: intervals_ok_def)
next
  case Watch
  with assms show ?thesis by (simp add: intervals_ok_def watch_def)
next
  case (OnSession i e)
  show ?thesis
  proof (cases "i < length (sessions p)")
    case False
    with assms OnSession show ?thesis by simp
  next
    case True
    let ?s = "sessions p ! i"
    from assms nth_mem[OF True] have "\<forall>t \<in> set (timers ?s). delay t = d"
      by (simp add: intervals_ok_def list_all_iff)
    then have "\<forall>t \<in> set (timers (step (condition opts) d env e ?s)). delay t = d"
      by (rule step_delays)
    moreover from assms have "apply_interval p = d" by (simp add: intervals_ok_def)
    ultimately show ?thesis
      using assms True OnSession
      by (auto simp: intervals_ok_def list_all_iff dest!: set_update_subset_insert[THEN subsetD])
  qed
qed

lemma plugin_run_intervals:
  fixes p :: "('e, 'ts) plugin"
  shows "intervals_ok d p \<Longrightarrow> intervals_ok d (plugin_run opts evs p)"
  by (induction evs arbitrary: p) (auto simp: plugin_step_intervals)

text \<open>
  C10, as the code has it. A supplied \<open>recheckInterval\<close> that is \<open>NaN\<close> is not 0, yet
  it is not used as given: it is falsy, and the interval computed in \<open>apply\<close> is the
  default, 200 ms.
\<close>

theorem recheck_interval_nan_counterexample:
  "recheckInterval \<lparr>condition = ready_or_changed, recheckInterval = Some NaN\<rparr> = Some NaN \<and>
   NaN \<noteq> Number 0 \<and>
   apply_interval (apply_plugin \<lparr>condition = ready_or_changed, recheckInterval = Some NaN\<rparr>
      :: (string, nat) plugin) = 200 \<and>
   Number (apply_interval (apply_plugin \<lparr>condition = ready_or_changed, recheckInterval = Some NaN\<rparr>
      :: (string, nat) plugin)) \<noteq> NaN"
  by (simp add: apply_plugin_def effective_interval_def DEFAULT_RECHECK_INTERVAL_def)

text \<open>
  C10, amended. With \<open>recheckInterval\<close> omitted, 0 or \<open>NaN\<close> the interval computed in
  \<open>apply\<close> is the default, 200 ms; any other supplied value, negative ones too, is
  taken as it is. In every state the plugin reaches this is the interval of every sleep
  of the startup barrier and the delay of every pending retry timer of every session.
\<close>

theorem recheck_interval_default:
  fixes opts :: "'w Options"
  shows
  "(recheckInterval opts = None \<or> recheckInterval opts = Some (Number 0) \<or>
    recheckInterval opts = Some NaN \<longrightarrow>
      apply_interval (apply_plugin opts :: ('e, 'ts) plugin) = 200) \<and>
   (recheckInterval opts = Some (Number n) \<and> n \<noteq> 0 \<longrightarrow>
      apply_interval (apply_plugin opts :: ('e, 'ts) plugin) = n) \<and>
   DEFAULT_RECHECK_INTERVAL = 200 \<and>
   intervals_ok (apply_interval (apply_plugin opts :: ('e, 'ts) plugin))
     (plugin_run opts evs (apply_plugin opts :: ('e, 'ts) plugin))"
proof (intro conjI impI)
  assume "recheckInterval opts = None \<or> recheckInterval opts = Some (Number 0) \<or>
    recheckInterval opts = Some NaN"
  then show "apply_interval (apply_plugin opts :: ('e, 'ts) plugin) = 200"
    by (auto simp: apply_plugin_def effective_interval_def DEFAULT_RECHECK_INTERVAL_def)
next
  assume "recheckInterval opts = Some (Number n) \<and> n \<noteq> 0"
  then show "apply_interval (apply_plugin opts :: ('e, 'ts) plugin) = n"
    by (simp add: apply_plugin_def effective_interval_def)
next
  show "DEFAULT_RECHECK_INTERVAL = 200" by (simp add: DEFAULT_RECHECK_INTERVAL_def)
next
  have "intervals_ok (apply_interval (apply_plugin opts :: ('e, 'ts) plugin)) (apply_plugin opts)"
    by (simp add: intervals_ok_def apply_plugin_def)
  then show "intervals_ok (apply_interval (apply_plugin opts :: ('e, 'ts) plugin))
     (plugin_run opts evs (apply_plugin opts :: ('e, 'ts) plugin))"
    by (rule plugin_run_intervals)
qed

theorem recheck_interval_default_witness:
  "apply_interval (apply_plugin example_options :: (string, nat) plugin) = 200 \<and>
   apply_interval (apply_plugin \<lparr>condition = ready_or_changed, recheckInterval = Some (Number 0)\<rparr>
      :: (string, nat) plugin) = 200 \<and>
   apply_interval (apply_plugin \<lparr>condition = ready_or_changed, recheckInterval = Some NaN\<rparr>
      :: (string, nat) plugin) = 200 \<and>
   apply_interval (apply_plugin \<lparr>condition = ready_or_changed, recheckInterval = Some (Number (- 5))\<rparr>
      :: (string, nat) plugin) = - 5 \<and>
   intervals_ok 200 (plugin_run example_options
      [(at_instant False 1000, AfterEnvironment), (at_instant False 1000, Watch),
       (at_instant False 1000, WatchRun), (at_instant False 1100, OnSession 0 (Notify None 1 1 [] []))]
      (apply_plugin example_options :: (string, nat) plugin)) \<and>
   barrier_sleeps (plugin_run example_options
      [(at_instant False 1000, AfterEnvironment), (at_instant False 1000, Watch),
       (at_instant False 1000, WatchRun), (at_instant False 1100, OnSession 0 (Notify None 1 1 [] []))]
      (apply_plugin example_options :: (string, nat) plugin)) = [200] \<and>
   map (\<lambda>s. map delay (timers s)) (sessions (plugin_run example_options
      [(at_instant False 1000, AfterEnvironment), (at_instant False 1000, Watch),
       (at_instant False 1000, WatchRun), (at_instant False 1100, OnSession 0 (Notify None 1 1 [] []))]
      (apply_plugin example_options :: (string, nat) plugin))) = [[200]]"
proof -
  let ?evs = "[(at_instant False 1000, AfterEnvironment), (at_instant False 1000, Watch),
       (at_instant False 1000, WatchRun),
       (at_instant False 1100, OnSession 0 (Notify None (1::nat) 1 [] []))
       :: bool env \<times> (string, nat) plugin_event]"
  have none: "recheckInterval example_options = None \<or>
      recheckInterval example_options = Some (Number 0) \<or>
      recheckInterval example_options = Some NaN"
    by (simp add: example_options_def)
  have zero: "recheckInterval \<lparr>condition = ready_or_changed, recheckInterval = Some (Number 0)\<rparr> = None \<or>
      recheckInterval \<lparr>condition = ready_or_changed, recheckInterval = Some (Number 0)\<rparr> = Some (Number 0) \<or>
      recheckInterval \<lparr>condition = ready_or_changed, recheckInterval = Some (Number 0)\<rparr> = Some NaN"
    by simp
  have nan: "recheckInterval \<lparr>condition = ready_or_changed, recheckInterval = Some NaN\<rparr> = None \<or>
      recheckInterval \<lparr>condition = ready_or_changed, recheckInterval = Some NaN\<rparr> = Some (Number 0) \<or>
      recheckInterval \<lparr>condition = ready_or_changed, recheckInterval = Some NaN\<rparr> = Some NaN"
    by simp
  have neg: "recheckInterval \<lparr>condition = ready_or_changed, recheckInterval = Some (Number (- 5))\<rparr> =
      Some (Number (- 5)) \<and> (- 5 :: int) \<noteq> 0"
    by simp
  note t = recheck_interval_default[where ?'e = string and ?'ts = nat, of example_options 0 ?evs]
  from none t have 1: "apply_interval (apply_plugin example_options :: (string, nat) plugin) = 200"
    by blast
  from zero recheck_interval_default[where ?'e = string and ?'ts = nat,
      of "\<lparr>condition = ready_or_changed, recheckInterval = Some (Number 0)\<rparr>" 0 "[]"]
  have zero200: "apply_interval (apply_plugin \<lparr>condition = ready_or_changed, recheckInterval = Some (Number 0)\<rparr>
      :: (string, nat) plugin) = 200"
    by blast
  from nan recheck_interval_default[where ?'e = string and ?'ts = nat,
      of "\<lparr>condition = ready_or_changed, recheckInterval = Some NaN\<rparr>" 0 "[]"]
  have nan200: "apply_interval (apply_plugin \<lparr>condition = ready_or_changed, recheckInterval = Some NaN\<rparr>
      :: (string, nat) plugin) = 200"
    by blast
  from neg recheck_interval_default[where ?'e = string and ?'ts = nat,
      of "\<lparr>condition = ready_or_changed, recheckInterval = Some (Number (- 5))\<rparr>" "- 5" "[]"]
  have 2: "apply_interval (apply_plugin \<lparr>condition = ready_or_changed, recheckInterval = Some (Number (- 5))\<rparr>
      :: (string, nat) plugin) = - 5"
    by blast
  from t have "intervals_ok (apply_interval (apply_plugin example_options :: (string, nat) plugin))
      (plugin_run example_options ?evs (apply_plugin example_options))"
    by blast
  then have 4: "intervals_ok 200 (plugin_run example_options ?evs
      (apply_plugin example_options :: (string, nat) plugin))"
    unfolding 1 .
  have 3: "plugin_run example_options ?evs
      (apply_plugin example_options :: (string, nat) plugin) =
    \<lparr>apply_printer = \<lparr>printedAt = Some 1000\<rparr>, apply_interval = 200, firstRun = False,
      asleep = True, wrapped = True,
      sessions = [\<lparr>heap = [[], []], changes = 0, removals = 1, timeout = Some 1,
        printer = \<lparr>printedAt = Some 1100\<rparr>,
        timers = [\<lparr>handle = 1, delay = 200, fileTimestamps = 1, dirTimestamps = 1\<rparr>],
        next_handle = 2, calls = [], logged = [],
        evals = [([], [], CondWhy [''not ready''])]\<rparr>],
      barrier_entries = 1, barrier_evals = [CondWhy [''not ready'']], barrier_sleeps = [200],
      apply_logged = []\<rparr>"
    by (simp add: example_options_def ready_or_changed_def apply_plugin_def effective_interval_def
      DEFAULT_RECHECK_INTERVAL_def watchRun_def barrier_turn_def handler_def runCallback_def
      cancel_pending_def onFalse_def at_instant_def watch_def forEach_add_def
      FALSE_CONDITION_PRINT_INTERVAL_def Let_def)
  have 5: "barrier_sleeps (plugin_run example_options ?evs
      (apply_plugin example_options :: (string, nat) plugin)) = [200]"
    unfolding 3 by simp
  have 6: "map (\<lambda>s. map delay (timers s)) (sessions (plugin_run example_options ?evs
      (apply_plugin example_options :: (string, nat) plugin))) = [[200]]"
    unfolding 3 by simp
  from 1 zero200 nan200 2 4 5 6 show ?thesis by blast
qed

lemma plugin_run_append:
  "plugin_run opts (xs @ ys) p = plugin_run opts ys (plugin_run opts xs p)"
  by (induction xs arbitrary: p) auto

text \<open>
  Before the first \<open>watchRun\<close> the loop has not been entered, is not suspended and has
  evaluated nothing; from the first \<open>watchRun\<close> on it has been entered exactly once.
\<close>

lemma barrier_step:
  fixes p :: "('e, 'ts) plugin"
  assumes "barrier_entries p = (if seen then 1 else 0)" "firstRun p = (\<not> seen)"
    "\<not> seen \<longrightarrow> \<not> asleep p \<and> barrier_evals p = []"
  shows "barrier_entries (plugin_step opts env ev p) = (if seen \<or> ev = WatchRun then 1 else 0) \<and>
         firstRun (plugin_step opts env ev p) = (\<not> (seen \<or> ev = WatchRun)) \<and>
         (\<not> (seen \<or> ev = WatchRun) \<longrightarrow>
            \<not> asleep (plugin_step opts env ev p) \<and> barrier_evals (plugin_step opts env ev p) = [])"
  using assms by (cases ev) (auto simp: watchRun_def wake_def)

lemma barrier_run:
  fixes p :: "('e, 'ts) plugin"
  assumes "barrier_entries p = (if seen then 1 else 0)" "firstRun p = (\<not> seen)"
    "\<not> seen \<longrightarrow> \<not> asleep p \<and> barrier_evals p = []"
  shows "barrier_entries (plugin_run opts evs p) = (if seen \<or> WatchRun \<in> snd ` set evs then 1 else 0) \<and>
         firstRun (plugin_run opts evs p) = (\<not> (seen \<or> WatchRun \<in> snd ` set evs)) \<and>
         (\<not> (seen \<or> WatchRun \<in> snd ` set evs) \<longrightarrow>
            \<not> asleep (plugin_run opts evs p) \<and> barrier_evals (plugin_run opts evs p) = [])"
  using assms
proof (induction evs arbitrary: p seen)
  case Nil
  then show ?case by simp
next
  case (Cons x evs)
  obtain env ev where x: "x = (env, ev)" by (cases x) auto
  note st = barrier_step[OF Cons.prems, of opts env ev]
  have "barrier_entries (plugin_run opts evs (plugin_step opts env ev p)) =
          (if (seen \<or> ev = WatchRun) \<or> WatchRun \<in> snd ` set evs then 1 else 0) \<and>
        firstRun (plugin_run opts evs (plugin_step opts env ev p)) =
          (\<not> ((seen \<or> ev = WatchRun) \<or> WatchRun \<in> snd ` set evs)) \<and>
        (\<not> ((seen \<or> ev = WatchRun) \<or> WatchRun \<in> snd ` set evs) \<longrightarrow>
           \<not> asleep (plugin_run opts evs (plugin_step opts env ev p)) \<and>
           barrier_evals (plugin_run opts evs (plugin_step opts env ev p)) = [])"
    by (rule Cons.IH) (use st in simp_all)
  then show ?case by (auto simp: x)
qed

text \<open>Once the barrier has been passed nothing evaluates the predicate on empty sets again.\<close>

lemma passed_step:
  fixes p :: "('e, 'ts) plugin"
  assumes "\<not> firstRun p" "\<not> asleep p"
  shows "\<not> firstRun (plugin_step opts env ev p) \<and> \<not> asleep (plugin_step opts env ev p) \<and>
         barrier_evals (plugin_step opts env ev p) = barrier_evals p \<and>
         barrier_entries (plugin_step opts env ev p) = barrier_entries p"
  using assms by (cases ev) (auto simp: watchRun_def wake_def)

lemma passed_run:
  fixes p :: "('e, 'ts) plugin"
  assumes "\<not> firstRun p" "\<not> asleep p"
  shows "barrier_evals (plugin_run opts evs p) = barrier_evals p \<and>
         barrier_entries (plugin_run opts evs p) = barrier_entries p"
  using assms
proof (induction evs arbitrary: p)
  case Nil
  then show ?case by simp
next
  case (Cons x evs)
  obtain env ev where x: "x = (env, ev)" by (cases x) auto
  from passed_step[OF Cons.prems, of opts env ev] Cons.IH[of "plugin_step opts env ev p"]
  show ?case by (simp add: x)
qed

lemma watchRun_again:
  fixes p :: "('e, 'ts) plugin"
  assumes "\<not> firstRun p"
  shows "plugin_run opts (map (\<lambda>e. (e, WatchRun)) envs) p = p"
  using assms by (induction envs) (simp_all add: watchRun_def)

text \<open>
  C8. The startup loop is entered once per application of the plugin: in every history
  after \<open>apply\<close> the branch \<open>if (firstRun)\<close> has been entered exactly once if
  \<open>watchRun\<close> has fired at all, and before the first \<open>watchRun\<close> nothing has been
  evaluated. A \<open>watchRun\<close> that is not the first changes nothing, so any number of
  \<open>watchRun\<close> events leave the plugin where the first one left it; and once the loop has
  accepted, no later event evaluates the predicate on empty sets or enters the loop.
\<close>

theorem startup_barrier_once:
  fixes opts :: "'w Options" and p :: "('e, 'ts) plugin"
  shows
  "barrier_entries (plugin_run opts evs (apply_plugin opts :: ('e, 'ts) plugin)) =
     (if WatchRun \<in> snd ` set evs then 1 else 0) \<and>
   firstRun (plugin_run opts evs (apply_plugin opts :: ('e, 'ts) plugin)) =
     (WatchRun \<notin> snd ` set evs) \<and>
   (WatchRun \<notin> snd ` set evs \<longrightarrow>
      barrier_evals (plugin_run opts evs (apply_plugin opts :: ('e, 'ts) plugin)) = []) \<and>
   (\<not> firstRun p \<longrightarrow> plugin_step opts env WatchRun p = p) \<and>
   plugin_run opts ((env, WatchRun) # map (\<lambda>e. (e, WatchRun)) envs)
       (apply_plugin opts :: ('e, 'ts) plugin) =
     plugin_step opts env WatchRun (apply_plugin opts) \<and>
   (\<not> firstRun p \<and> \<not> asleep p \<longrightarrow>
      barrier_evals (plugin_run opts evs' p) = barrier_evals p \<and>
      barrier_entries (plugin_run opts evs' p) = barrier_entries p)"
proof -
  let ?a = "apply_plugin opts :: ('e, 'ts) plugin"
  have "barrier_entries (plugin_run opts evs ?a) = (if False \<or> WatchRun \<in> snd ` set evs then 1 else 0) \<and>
         firstRun (plugin_run opts evs ?a) = (\<not> (False \<or> WatchRun \<in> snd ` set evs)) \<and>
         (\<not> (False \<or> WatchRun \<in> snd ` set evs) \<longrightarrow>
            \<not> asleep (plugin_run opts evs ?a) \<and> barrier_evals (plugin_run opts evs ?a) = [])"
    by (rule barrier_run) (simp_all add: apply_plugin_def)
  then have 1: "barrier_entries (plugin_run opts evs ?a) = (if WatchRun \<in> snd ` set evs then 1 else 0)"
    "firstRun (plugin_run opts evs ?a) = (WatchRun \<notin> snd ` set evs)"
    "WatchRun \<notin> snd ` set evs \<longrightarrow> barrier_evals (plugin_run opts evs ?a) = []"
    by simp_all
  have 2: "\<not> firstRun p \<longrightarrow> plugin_step opts env WatchRun p = p"
    by (simp add: watchRun_def)
  have "\<not> firstRun (plugin_step opts env WatchRun ?a)"
    by (simp add: watchRun_def apply_plugin_def)
  then have 3: "plugin_run opts ((env, WatchRun) # map (\<lambda>e. (e, WatchRun)) envs) ?a =
     plugin_step opts env WatchRun ?a"
    using watchRun_again[of "plugin_step opts env WatchRun ?a" opts envs] by simp
  have 4: "\<not> firstRun p \<and> \<not> asleep p \<longrightarrow>
      barrier_evals (plugin_run opts evs' p) = barrier_evals p \<and>
      barrier_entries (plugin_run opts evs' p) = barrier_entries p"
    using passed_run[of p opts evs'] by blast
  from 1 2 3 4 show ?thesis by blast
qed

theorem startup_barrier_once_witness:
  "barrier_entries (plugin_run example_options
      [(at_instant False 1000, WatchRun), (at_instant True 1200, Wake),
       (at_instant False 2000, WatchRun), (at_instant False 2200, Wake),
       (at_instant False 3000, WatchRun)]
      (apply_plugin example_options :: (string, nat) plugin)) = 1 \<and>
   barrier_evals (plugin_run example_options
      [(at_instant False 1000, WatchRun), (at_instant True 1200, Wake),
       (at_instant False 2000, WatchRun), (at_instant False 2200, Wake),
       (at_instant False 3000, WatchRun)]
      (apply_plugin example_options :: (string, nat) plugin)) = [CondWhy [''not ready''], CondTrue] \<and>
   barrier_evals (plugin_run example_options
      [(at_instant False 1000, WatchRun), (at_instant True 1200, Wake)]
      (apply_plugin example_options :: (string, nat) plugin)) = [CondWhy [''not ready''], CondTrue] \<and>
   barrier_evals (plugin_run example_options
      [(at_instant False 1000, AfterEnvironment), (at_instant False 1100, Wake)]
      (apply_plugin example_options :: (string, nat) plugin)) = [] \<and>
   plugin_run example_options
      [(at_instant False 1000, WatchRun), (at_instant False 1001, WatchRun),
       (at_instant True 1002, WatchRun)]
      (apply_plugin example_options :: (string, nat) plugin) =
     plugin_step example_options (at_instant False 1000) WatchRun (apply_plugin example_options)"
proof -
  let ?a = "apply_plugin example_options :: (string, nat) plugin"
  let ?p = "plugin_run example_options
      [(at_instant False 1000, WatchRun), (at_instant True 1200, Wake)] ?a"
  have p: "?p = \<lparr>apply_printer = \<lparr>printedAt = None\<rparr>, apply_interval = 200, firstRun = False,
      asleep = False, wrapped = False, sessions = [], barrier_entries = 1,
      barrier_evals = [CondWhy [''not ready''], CondTrue], barrier_sleeps = [200],
      apply_logged = []\<rparr>"
    by (simp add: example_options_def ready_or_changed_def apply_plugin_def effective_interval_def
      DEFAULT_RECHECK_INTERVAL_def watchRun_def wake_def barrier_turn_def reset_def
      onFalse_def at_instant_def FALSE_CONDITION_PRINT_INTERVAL_def Let_def)
  have passed: "\<not> firstRun ?p \<and> \<not> asleep ?p" unfolding p by simp
  have nw: "WatchRun \<notin> snd ` set [(at_instant False 1000, AfterEnvironment :: (string, nat) plugin_event),
      (at_instant False 1100, Wake)]"
    by simp
  note t1 = startup_barrier_once[where opts = example_options and p = ?p
      and evs = "[(at_instant False 1000, WatchRun), (at_instant True 1200, Wake),
                  (at_instant False 2000, WatchRun), (at_instant False 2200, Wake),
                  (at_instant False 3000, WatchRun)]"
      and evs' = "[(at_instant False 2000, WatchRun), (at_instant False 2200, Wake),
                   (at_instant False 3000, WatchRun)]"
      and env = "at_instant False 1000"
      and envs = "[at_instant False 1001, at_instant True 1002]"]
  note t2 = startup_barrier_once[where opts = example_options and p = ?p
      and evs = "[(at_instant False 1000, AfterEnvironment), (at_instant False 1100, Wake)]"
      and evs' = "[]" and env = "at_instant False 1000" and envs = "[]"]
  from t1 have 1: "barrier_entries (plugin_run example_options
      [(at_instant False 1000, WatchRun), (at_instant True 1200, Wake),
       (at_instant False 2000, WatchRun), (at_instant False 2200, Wake),
       (at_instant False 3000, WatchRun)] ?a) = 1"
    by simp
  from t1 passed have e: "barrier_evals (plugin_run example_options
      [(at_instant False 2000, WatchRun), (at_instant False 2200, Wake),
       (at_instant False 3000, WatchRun)] ?p) = barrier_evals ?p"
    by blast
  have app: "plugin_run example_options
      ([(at_instant False 1000, WatchRun), (at_instant True 1200, Wake)] @
       [(at_instant False 2000, WatchRun), (at_instant False 2200, Wake),
        (at_instant False 3000, WatchRun)]) ?a =
     plugin_run example_options
      [(at_instant False 2000, WatchRun), (at_instant False 2200, Wake),
       (at_instant False 3000, WatchRun)] ?p"
    by (rule plugin_run_append)
  have "barrier_evals (plugin_run example_options
      ([(at_instant False 1000, WatchRun), (at_instant True 1200, Wake)] @
       [(at_instant False 2000, WatchRun), (at_instant False 2200, Wake),
        (at_instant False 3000, WatchRun)]) ?a) = [CondWhy [''not ready''], CondTrue]"
    unfolding app e unfolding p by simp
  then have 2: "barrier_evals (plugin_run example_options
      [(at_instant False 1000, WatchRun), (at_instant True 1200, Wake),
       (at_instant False 2000, WatchRun), (at_instant False 2200, Wake),
       (at_instant False 3000, WatchRun)] ?a) = [CondWhy [''not ready''], CondTrue]"
    by simp
  have 3: "barrier_evals ?p = [CondWhy [''not ready''], CondTrue]" unfolding p by simp
  from t2 nw have 4: "barrier_evals (plugin_run example_options
      [(at_instant False 1000, AfterEnvironment), (at_instant False 1100, Wake)] ?a) = []"
    by blast
  from t1 have 5: "plugin_run example_options
      [(at_instant False 1000, WatchRun), (at_instant False 1001, WatchRun),
       (at_instant True 1002, WatchRun)] ?a =
     plugin_step example_options (at_instant False 1000) WatchRun ?a"
    by simp
  from 1 2 3 4 5 show ?thesis by blast
qed

text \<open>
  C9, as the code has it. The startup gate and a watch session do not share a reporter:
  \<open>apply\<close> creates one \<open>FalseConditionPrinter\<close> for the startup loop and every
  \<open>watch\<close> call creates another for its session. In the first history the session's
  acceptance at time 5000 resets the session's printer, yet the startup gate's window
  still starts at 1000, and the loop's turn at 11001 logs the reason. In the second the
  startup gate's acceptance leaves the session's window start at 1000.
\<close>

theorem shared_reporter_counterexample:
  "calls (sessions (plugin_run example_options session_accepts_during_barrier
      (apply_plugin example_options)) ! 0) = [CallOk 1 1 0 1] \<and>
   printedAt (printer (sessions (plugin_run example_options session_accepts_during_barrier
      (apply_plugin example_options)) ! 0)) = None \<and>
   printedAt (apply_printer (plugin_run example_options session_accepts_during_barrier
      (apply_plugin example_options))) = Some 1000 \<and>
   apply_logged (plugin_run example_options
      (session_accepts_during_barrier @ [(at_instant False 11001, Wake)])
      (apply_plugin example_options)) = [''not ready''] \<and>
   barrier_evals (plugin_run example_options barrier_accepts_during_session
      (apply_plugin example_options)) = [CondTrue] \<and>
   printedAt (apply_printer (plugin_run example_options barrier_accepts_during_session
      (apply_plugin example_options))) = None \<and>
   printedAt (printer (sessions (plugin_run example_options barrier_accepts_during_session
      (apply_plugin example_options)) ! 0)) = Some 1000"
  by (simp add: example_options_def ready_or_changed_def session_accepts_during_barrier_def
      barrier_accepts_during_session_def apply_plugin_def effective_interval_def
      DEFAULT_RECHECK_INTERVAL_def watchRun_def wake_def barrier_turn_def handler_def
      runCallback_def cancel_pending_def reset_def onFalse_def at_instant_def watch_def
      forEach_add_def Set_add_def FALSE_CONDITION_PRINT_INTERVAL_def Let_def)

text \<open>
  C9, amended. The startup gate and each watch session hold reporter states of their
  own: no step of a session, be it an acceptance, an error or a rejection, changes the
  startup gate's printer, and no turn of the startup loop changes any session, its
  printer included. Each is throttled against its own window.
\<close>

theorem separate_reporters:
  fixes opts :: "'w Options" and p :: "('e, 'ts) plugin"
  shows
  "apply_printer (plugin_step opts env (OnSession i ev) p) = apply_printer p \<and>
   sessions (plugin_step opts env WatchRun p) = sessions p \<and>
   sessions (plugin_step opts env Wake p) = sessions p \<and>
   printer (watch :: ('e, 'ts) session) = \<lparr>printedAt = None\<rparr> \<and>
   apply_printer (apply_plugin opts :: ('e, 'ts) plugin) = \<lparr>printedAt = None\<rparr>"
  by (simp add: watchRun_def wake_def watch_def apply_plugin_def)

theorem separate_reporters_witness:
  "apply_printer (plugin_step example_options (at_instant False 5000)
      (OnSession 0 (Notify None 1 1 [''a''] []))
      (plugin_run example_options
        [(at_instant False 1000, AfterEnvironment), (at_instant False 1000, Watch),
         (at_instant False 1000, WatchRun)] (apply_plugin example_options :: (string, nat) plugin))) =
     \<lparr>printedAt = Some 1000\<rparr> \<and>
   sessions (plugin_step example_options (at_instant True 2000) WatchRun
      (plugin_run example_options
        [(at_instant False 1000, AfterEnvironment), (at_instant False 1000, Watch),
         (at_instant False 1000, OnSession 0 (Notify None 1 1 [] []))]
        (apply_plugin example_options :: (string, nat) plugin))) =
     [\<lparr>heap = [[], []], changes = 0, removals = 1, timeout = Some 1,
        printer = \<lparr>printedAt = Some 1000\<rparr>,
        timers = [\<lparr>handle = 1, delay = 200, fileTimestamps = 1, dirTimestamps = 1\<rparr>],
        next_handle = 2, calls = [], logged = [],
        evals = [([], [], CondWhy [''not ready''])]\<rparr>]"
proof -
  let ?a = "apply_plugin example_options :: (string, nat) plugin"
  let ?p1 = "plugin_run example_options
        [(at_instant False 1000, AfterEnvironment), (at_instant False 1000, Watch),
         (at_instant False 1000, WatchRun)] ?a"
  let ?p2 = "plugin_run example_options
        [(at_instant False 1000, AfterEnvironment), (at_instant False 1000, Watch),
         (at_instant False 1000, OnSession 0 (Notify None 1 1 [] []))] ?a"
  have 1: "apply_printer ?p1 = \<lparr>printedAt = Some 1000\<rparr>"
    by (simp add: example_options_def ready_or_changed_def apply_plugin_def watchRun_def
        barrier_turn_def onFalse_def at_instant_def FALSE_CONDITION_PRINT_INTERVAL_def Let_def)
  have 2: "sessions ?p2 =
     [\<lparr>heap = [[], []], changes = 0, removals = 1, timeout = Some 1,
        printer = \<lparr>printedAt = Some 1000\<rparr>,
        timers = [\<lparr>handle = 1, delay = 200, fileTimestamps = 1, dirTimestamps = 1\<rparr>],
        next_handle = 2, calls = [], logged = [],
        evals = [([], [], CondWhy [''not ready''])]\<rparr>]"
    by (simp add: example_options_def ready_or_changed_def apply_plugin_def effective_interval_def
        DEFAULT_RECHECK_INTERVAL_def handler_def runCallback_def cancel_pending_def onFalse_def
        at_instant_def watch_def forEach_add_def FALSE_CONDITION_PRINT_INTERVAL_def Let_def)
  from separate_reporters[of example_options "at_instant False 5000" 0
      "Notify None 1 1 [''a''] []" ?p1]
  have a: "apply_printer (plugin_step example_options (at_instant False 5000)
      (OnSession 0 (Notify None 1 1 [''a''] [])) ?p1) = apply_printer ?p1"
    by (rule conjunct1)
  from separate_reporters[of example_options "at_instant True 2000" 0
      "Notify None 1 1 [''a''] []" ?p2]
  have b: "sessions (plugin_step example_options (at_instant True 2000) WatchRun ?p2) = sessions ?p2"
    by blast
  show ?thesis unfolding a b 1 2 by simp
qed

end
